theory Spec2Isabelle
  imports Main "HOL-Library.Word"
begin

unbundle bit_operations_syntax

section \<open>gorep: a concurrent find-and-grep pipeline\<close>

text \<open>
  The development follows gorep 0.2.5. Every goroutine body of the program is
  translated into a function that computes the sequence of primitive operations the body
  performs (channel sends, closes, wait-group operations, semaphore operations, spawns,
  file operations); the Go runtime's semantics of these operations is a step function
  that a scheduler drives, interleaving the goroutines.
\<close>

subsection \<open>Bytes, runes and UTF-8 decoding\<close>

type_synonym byte = "8 word"

text \<open>
  A Go \<^verbatim>\<open>rune\<close> is an \<^verbatim>\<open>int32\<close>. Decoded code points are at most 21 bits wide, so no
  operation on them wraps, and they are modelled as integers.
\<close>

type_synonym rune = int

definition RuneError :: rune where
  "RuneError = 0xFFFD"

definition RuneSelf :: rune where
  "RuneSelf = 0x80"

text \<open>
  \<^verbatim>\<open>utf8.DecodeRune\<close> of the Go standard library: the first code point of \<open>p\<close> and its
  width in bytes; an invalid or truncated encoding yields \<open>(RuneError, 1)\<close>, the empty
  slice \<open>(RuneError, 0)\<close>. The case distinction on the first byte is the library's table
  \<^verbatim>\<open>first\<close>, the bounds on the second byte its table \<^verbatim>\<open>acceptRanges\<close>.
\<close>

definition acceptRange :: "byte \<Rightarrow> byte \<times> byte" where
  "acceptRange p0 =
     (if p0 = 0xE0 then (0xA0, 0xBF)
      else if p0 = 0xED then (0x80, 0x9F)
      else if p0 = 0xF0 then (0x90, 0xBF)
      else if p0 = 0xF4 then (0x80, 0x8F)
      else (0x80, 0xBF))"

definition runeSize :: "byte \<Rightarrow> nat" where
  "runeSize p0 = (if p0 < 0xE0 then 2 else if p0 < 0xF0 then 3 else 4)"

definition decode2 :: "byte \<Rightarrow> byte \<Rightarrow> rune" where
  "decode2 p0 b1 = push_bit 6 (uint (p0 AND 0x1F)) OR uint (b1 AND 0x3F)"

definition decode3 :: "byte \<Rightarrow> byte \<Rightarrow> byte \<Rightarrow> rune" where
  "decode3 p0 b1 b2 =
     push_bit 12 (uint (p0 AND 0x0F)) OR push_bit 6 (uint (b1 AND 0x3F)) OR uint (b2 AND 0x3F)"

definition decode4 :: "byte \<Rightarrow> byte \<Rightarrow> byte \<Rightarrow> byte \<Rightarrow> rune" where
  "decode4 p0 b1 b2 b3 =
     push_bit 18 (uint (p0 AND 0x07)) OR push_bit 12 (uint (b1 AND 0x3F))
       OR push_bit 6 (uint (b2 AND 0x3F)) OR uint (b3 AND 0x3F)"

fun DecodeRune :: "byte list \<Rightarrow> rune \<times> nat" where
  "DecodeRune [] = (RuneError, 0)"
| "DecodeRune (p0 # p) =
     (if p0 < 0x80 then (uint p0, 1)
      else if p0 < 0xC2 \<or> 0xF4 < p0 then (RuneError, 1)
      else
        let sz = runeSize p0; (lo, hi) = acceptRange p0 in
        if length (p0 # p) < sz then (RuneError, 1)
        else
          let b1 = p ! 0 in
          if b1 < lo \<or> hi < b1 then (RuneError, 1)
          else if sz \<le> 2 then (decode2 p0 b1, 2)
          else
            let b2 = p ! 1 in
            if b2 < 0x80 \<or> 0xBF < b2 then (RuneError, 1)
            else if sz \<le> 3 then (decode3 p0 b1 b2, 3)
            else
              let b3 = p ! 2 in
              if b3 < 0x80 \<or> 0xBF < b3 then (RuneError, 1)
              else (decode4 p0 b1 b2 b3, 4))"

text \<open>
  \<^verbatim>\<open>bytes.IndexFunc(s, f)\<close>: the byte index of the first code point of \<open>s\<close> that satisfies
  \<open>f\<close>, or \<open>-1\<close>. The library's loop decodes one code point per iteration: a byte below
  \<open>RuneSelf\<close> is its own code point, anything else goes through \<open>DecodeRune\<close>. The loop
  ends because every decoded code point is at least one byte wide.
\<close>

function indexFunc :: "byte list \<Rightarrow> (rune \<Rightarrow> bool) \<Rightarrow> bool \<Rightarrow> nat \<Rightarrow> int" where
  "indexFunc s f truth start =
     (if start < length s then
        let r0 = uint (s ! start);
            rw = (if RuneSelf \<le> r0 then DecodeRune (drop start s) else (r0, 1))
        in if f (fst rw) = truth then int start
           else indexFunc s f truth (start + snd rw)
      else - 1)"
  by pat_completeness auto
termination
proof (relation "measure (\<lambda>(s, f, truth, start). length s - start)")
  show "wf (measure (\<lambda>(s, f, truth, start). length s - start))"
    by simp
next
  fix s :: "byte list" and f :: "rune \<Rightarrow> bool" and truth :: bool and start :: nat
    and r0 :: int and rw :: "rune \<times> nat"
  assume lt: "start < length s"
    and rw: "rw = (if RuneSelf \<le> r0 then DecodeRune (drop start s) else (r0, 1))"
  from lt obtain p0 p where "drop start s = p0 # p"
    by (cases "drop start s") simp_all
  then have "1 \<le> snd (DecodeRune (drop start s))"
    by (simp add: Let_def split: prod.splits)
  with rw have "1 \<le> snd rw"
    by simp
  with lt show "((s, f, truth, start + snd rw), (s, f, truth, start))
      \<in> measure (\<lambda>(s, f, truth, start). length s - start)"
    by simp
qed

declare indexFunc.simps [simp del]

definition IndexFunc :: "byte list \<Rightarrow> (rune \<Rightarrow> bool) \<Rightarrow> int" where
  "IndexFunc s f = indexFunc s f True 0"

text \<open>
  \<^verbatim>\<open>bytes.IndexRune(m, '\n')\<close>: for a code point below \<open>RuneSelf\<close> the library searches
  for the byte; the result is the index of its first occurrence, or \<open>-1\<close>.
\<close>

fun IndexByte :: "byte list \<Rightarrow> byte \<Rightarrow> int" where
  "IndexByte [] c = - 1"
| "IndexByte (b # bs) c =
     (if b = c then 0 else let i = IndexByte bs c in if i = - 1 then - 1 else i + 1)"

subsection \<open>The binary classifier\<close>

text \<open>
  \<^verbatim>\<open>verifyBinary\<close>: character codes 0x00 - 0x08 are control codes; the first 256 bytes
  of the buffer are searched for a code point below 0x09.
\<close>

definition verifyBinary :: "byte list \<Rightarrow> bool" where
  "verifyBinary buf =
     (let b = (if length buf > 256 then take 256 buf else buf) in
      if IndexFunc b (\<lambda>r. r < 0x09) \<noteq> - 1 then True else False)"

subsection \<open>Strings, paths and patterns\<close>

text \<open>Go's conversion \<^verbatim>\<open>string(line)\<close> copies the bytes.\<close>

definition string_of_bytes :: "byte list \<Rightarrow> string" where
  "string_of_bytes bs = map (\<lambda>b. char_of (unat b)) bs"

definition separator :: string where
  "separator = ''/''"

text \<open>
  \<^verbatim>\<open>path.Base\<close> of the Go standard library: the last element of the path, after removing
  trailing slashes; \<open>''.''\<close> for the empty path and \<open>''/''\<close> for a path of slashes only.
\<close>

definition Base :: "string \<Rightarrow> string" where
  "Base p =
     (if p = [] then ''.''
      else
        let p1 = rev (dropWhile (\<lambda>c. c = CHR ''/'') (rev p));
            p2 = rev (takeWhile (\<lambda>c. c \<noteq> CHR ''/'') (rev p1))
        in if p2 = [] then ''/'' else p2)"

text \<open>The decimal digits that \<^verbatim>\<open>%d\<close> prints for a non-negative number.\<close>

fun decimal :: "nat \<Rightarrow> string" where
  "decimal n =
     (if n < 10 then [char_of (48 + n)]
      else decimal (n div 10) @ [char_of (48 + n mod 10)])"

declare decimal.simps [simp del]

text \<open>
  A compiled \<^verbatim>\<open>*regexp.Regexp\<close> is used by the pipeline through \<^verbatim>\<open>MatchString\<close> only, so it
  is modelled by that predicate. The regular expression library itself is a parameter of
  the model: \<^verbatim>\<open>regexp.Compile\<close> maps the source of an expression to an error message or to
  the compiled expression.
\<close>

type_synonym Regexp = "string \<Rightarrow> bool"


definition MatchString :: "Regexp \<Rightarrow> string \<Rightarrow> bool" where
  "MatchString re s = re s"

subsection \<open>Configuration\<close>


record searchScope =
  scope_dir :: bool
  scope_file :: bool
  scope_symlink :: bool
  scope_grep :: bool
  scope_binary :: bool
  scope_hidden :: bool

text \<open>The field \<open>ignorePattern\<close> is \<open>None\<close> where the Go pointer is \<^verbatim>\<open>nil\<close>.\<close>

record gorep =
  pattern :: Regexp
  ignorePattern :: "Regexp option"
  scope :: searchScope

definition maxNumOfFileOpen :: nat where
  "maxNumOfFileOpen = 10"


subsection \<open>The file system\<close>

text \<open>
  \<^verbatim>\<open>os.FileMode\<close> is a 32-bit word; the mode bits the walker tests are the constants of
  the \<^verbatim>\<open>os\<close> package.
\<close>

type_synonym FileMode = "32 word"

definition ModeDir :: FileMode where "ModeDir = push_bit 31 1"
definition ModeAppend :: FileMode where "ModeAppend = push_bit 30 1"
definition ModeExclusive :: FileMode where "ModeExclusive = push_bit 29 1"
definition ModeTemporary :: FileMode where "ModeTemporary = push_bit 28 1"
definition ModeSymlink :: FileMode where "ModeSymlink = push_bit 27 1"
definition ModeDevice :: FileMode where "ModeDevice = push_bit 26 1"
definition ModeNamedPipe :: FileMode where "ModeNamedPipe = push_bit 25 1"
definition ModeSocket :: FileMode where "ModeSocket = push_bit 24 1"
definition ModeSetuid :: FileMode where "ModeSetuid = push_bit 23 1"
definition ModeSetgid :: FileMode where "ModeSetgid = push_bit 22 1"
definition ModeCharDevice :: FileMode where "ModeCharDevice = push_bit 21 1"
definition ModeSticky :: FileMode where "ModeSticky = push_bit 20 1"

definition ignoreFlag :: FileMode where
  "ignoreFlag = ModeDir OR ModeAppend OR ModeExclusive OR ModeTemporary OR
                ModeSymlink OR ModeDevice OR ModeNamedPipe OR ModeSocket OR
                ModeSetuid OR ModeSetgid OR ModeCharDevice OR ModeSticky"

text \<open>
  The directory tree as the walker sees it: an entry of a listing has a name and a mode,
  and carries what \<^verbatim>\<open>ioutil.ReadDir\<close> returns for its path (an error, or the listing).
  Only entries with the directory bit are ever listed.
\<close>

datatype finfo = FileInfo (Name: string) (Mode: FileMode) (sub: readDir)
  and readDir = ReadDirError string | Listing "finfo list"

text \<open>
  What the scanner obtains for a path: \<^verbatim>\<open>os.Open\<close>, \<^verbatim>\<open>file.Stat\<close> or \<^verbatim>\<open>syscall.Mmap\<close>
  fails with an error, or the file is mapped and its bytes are read.
\<close>

datatype fileAccess = OpenError string | StatError string | MmapError string
  | Mapped "byte list"

type_synonym files = "string \<Rightarrow> fileAccess"

subsection \<open>Operations of a goroutine\<close>

text \<open>
  The two channel sets of \<^verbatim>\<open>kick\<close> and the four channels of a set; a channel is a pair
  such as \<open>(chsMap, File)\<close> for \<^verbatim>\<open>chsMap.file\<close>.
\<close>

datatype channelSet = chsMap | chsReduce

datatype field = Dir | File | Symlink | Line

type_synonym chan = "channelSet \<times> field"

datatype waitGroup = waitMaps | waitGreps

datatype action =
    Send chan string
  | CloseChan chan
  | Add waitGroup
  | Done waitGroup
  | Wait waitGroup
  | Acquire
  | Release
  | Go "action list"
  | ForRange chan "string \<Rightarrow> action list"
  | Open string
  | CloseFile string
  | Munmap
  | Stderr string
  | Exit

text \<open>
  \<open>Send c msg\<close> is \<^verbatim>\<open>c <- msg\<close>; \<open>Acquire\<close> is \<^verbatim>\<open>semFopenLimit <- 1\<close> and \<open>Release\<close> is
  \<^verbatim>\<open><-semFopenLimit\<close>; \<open>Go body\<close> starts a goroutine; \<open>ForRange c body\<close> is the loop
  \<^verbatim>\<open>for msg := range c { body }\<close>; \<open>Open\<close> is a successful \<^verbatim>\<open>os.Open\<close> and \<open>CloseFile\<close>
  the deferred \<^verbatim>\<open>file.Close\<close>; \<open>Stderr\<close> is a write to the error stream; \<open>Exit\<close> is
  \<^verbatim>\<open>os.Exit(-1)\<close>.
\<close>

definition sends :: "chan \<Rightarrow> action list \<Rightarrow> string list" where
  "sends c acts = concat (map (\<lambda>a. case a of Send c' msg \<Rightarrow> (if c' = c then [msg] else []) | _ \<Rightarrow> []) acts)"

definition spawned :: "action list \<Rightarrow> action list list" where
  "spawned acts = concat (map (\<lambda>a. case a of Go body \<Rightarrow> [body] | _ \<Rightarrow> []) acts)"

definition errors :: "action list \<Rightarrow> string list" where
  "errors acts = concat (map (\<lambda>a. case a of Stderr msg \<Rightarrow> [msg] | _ \<Rightarrow> []) acts)"

subsection \<open>The tree walker\<close>

text \<open>
  \<^verbatim>\<open>verifyHidden\<close> reads the first byte of the base name. \<open>Base\<close> never returns the empty
  string (lemma \<open>Base_not_empty\<close>), so the index is always in range.
\<close>

definition verifyHidden :: "string \<Rightarrow> bool" where
  "verifyHidden fpath =
     (case Base fpath of [] \<Rightarrow> False | c # _ \<Rightarrow> if CHR ''.'' = c then True else False)"

text \<open>
  \<^verbatim>\<open>mapfork\<close>: a listing error is fatal (the deferred \<^verbatim>\<open>waitMaps.Done\<close> does not run
  after \<^verbatim>\<open>os.Exit\<close>); otherwise the loop over the listing runs and the deferred
  \<^verbatim>\<open>Done\<close> follows. \<open>mapfork_loop\<close> is the \<^verbatim>\<open>for\<close> loop over the listing.
\<close>

fun mapfork :: "gorep \<Rightarrow> string \<Rightarrow> channelSet \<Rightarrow> readDir \<Rightarrow> action list"
  and mapfork_loop :: "gorep \<Rightarrow> string \<Rightarrow> channelSet \<Rightarrow> finfo list \<Rightarrow> action list" where
  "mapfork this fpath chans (ReadDirError err) =
     [Stderr (''dive error: '' @ err @ [CHR 0x0A]), Exit]"
| "mapfork this fpath chans (Listing list) =
     mapfork_loop this fpath chans list @ [Done waitMaps]"
| "mapfork_loop this fpath chans [] = []"
| "mapfork_loop this fpath chans (FileInfo fname mode rd # list) =
     (if \<not> scope_hidden (scope this) \<and> verifyHidden fname then
        mapfork_loop this fpath chans list
      else if (case ignorePattern this of None \<Rightarrow> False | Some re \<Rightarrow> MatchString re fname) then
        mapfork_loop this fpath chans list
      else if mode AND ModeDir \<noteq> 0 then
        (let fullpath = fpath @ separator @ fname in
         Send (chans, Dir) fullpath # Add waitMaps # Go (mapfork this fullpath chans rd)
           # mapfork_loop this fpath chans list)
      else if mode AND ModeSymlink \<noteq> 0 then
        Send (chans, Symlink) (fpath @ separator @ fname) # mapfork_loop this fpath chans list
      else if mode AND ignoreFlag = 0 then
        Send (chans, File) (fpath @ separator @ fname) # mapfork_loop this fpath chans list
      else mapfork_loop this fpath chans list)"

subsection \<open>The content scanner\<close>

definition LF :: byte where
  "LF = 0x0A"

text \<open>
  The scanning loop of \<^verbatim>\<open>grep\<close>, from \<^verbatim>\<open>for m := mem; len(m) > 0;\<close> on. A binary match
  sends the marker and returns; a line that matches the ignore pattern is skipped.
\<close>

function grep_loop :: "gorep \<Rightarrow> string \<Rightarrow> chan \<Rightarrow> bool \<Rightarrow> nat \<Rightarrow> byte list \<Rightarrow> action list" where
  "grep_loop this fpath out isBinary lineNumber m =
     (if length m > 0 then
        let index = IndexByte m LF;
            ln = (if index \<noteq> - 1 then take (nat index) m else m);
            m' = (if index \<noteq> - 1 then drop (length ln + 1) m else drop (length ln) m);
            lineNumber = lineNumber + 1;
            strline = string_of_bytes ln
        in if MatchString (pattern this) strline then
             if isBinary then
               [Send out (''Binary file '' @ fpath @ '' matches'')]
             else if (case ignorePattern this of None \<Rightarrow> False
                      | Some re \<Rightarrow> MatchString re strline) then
               grep_loop this fpath out isBinary lineNumber m'
             else
               Send out (fpath @ '':'' @ decimal lineNumber @ '': '' @ strline)
                 # grep_loop this fpath out isBinary lineNumber m'
           else grep_loop this fpath out isBinary lineNumber m'
      else [])"
  by pat_completeness auto
termination
  by (relation "measure (\<lambda>(this, fpath, out, isBinary, lineNumber, m). length m)") auto

declare grep_loop.simps [simp del]

text \<open>
  \<^verbatim>\<open>grep\<close>. The deferred calls run in reverse order of their registration: the unmapping,
  the closing of the file, and last the function that gives the permit back and signals
  \<^verbatim>\<open>waitGreps\<close>.
\<close>

definition grep :: "gorep \<Rightarrow> string \<Rightarrow> fileAccess \<Rightarrow> chan \<Rightarrow> action list" where
  "grep this fpath access out =
     Acquire #
     (case access of
        OpenError err \<Rightarrow> [Stderr (''grep open error: '' @ err @ [CHR 0x0A])]
      | StatError err \<Rightarrow>
          [Open fpath, Stderr (''grep stat error: '' @ err @ [CHR 0x0A]), CloseFile fpath]
      | MmapError err \<Rightarrow>
          [Open fpath, Stderr (''grep mmap error: '' @ err @ [CHR 0x0A]), CloseFile fpath]
      | Mapped mem \<Rightarrow>
          Open fpath #
          (let isBinary = verifyBinary mem in
           if isBinary \<and> \<not> scope_binary (scope this) then []
           else grep_loop this fpath out isBinary 0 mem)
          @ [Munmap, CloseFile fpath])
     @ [Release, Done waitGreps]"

subsection \<open>The dispatch stage and the pipeline\<close>

definition filter_msg :: "gorep \<Rightarrow> string \<Rightarrow> chan \<Rightarrow> action list" where
  "filter_msg this msg out =
     (if MatchString (pattern this) (Base msg) then [Send out msg] else [])"

definition reduce_dir :: "gorep \<Rightarrow> chan \<Rightarrow> chan \<Rightarrow> action list" where
  "reduce_dir this in_ch out =
     [ForRange in_ch (\<lambda>msg. if scope_dir (scope this) then filter_msg this msg out else []),
      CloseChan out]"

definition reduce_file_body :: "gorep \<Rightarrow> files \<Rightarrow> chan \<Rightarrow> chan \<Rightarrow> string \<Rightarrow> action list" where
  "reduce_file_body this fs out chLine msg =
     (if scope_file (scope this) then filter_msg this msg out else [])
     @ (if scope_grep (scope this)
        then [Add waitGreps, Go (grep this msg (fs msg) chLine)] else [])"

definition reduce_file :: "gorep \<Rightarrow> files \<Rightarrow> chan \<Rightarrow> chan \<Rightarrow> chan \<Rightarrow> action list" where
  "reduce_file this fs in_ch out chLine =
     [ForRange in_ch (reduce_file_body this fs out chLine),
      CloseChan out, Wait waitGreps, CloseChan chLine]"

definition reduce_symlink :: "gorep \<Rightarrow> chan \<Rightarrow> chan \<Rightarrow> action list" where
  "reduce_symlink this in_ch out =
     [ForRange in_ch (\<lambda>msg. if scope_symlink (scope this) then filter_msg this msg out else []),
      CloseChan out]"

definition reduce :: "gorep \<Rightarrow> files \<Rightarrow> channelSet \<Rightarrow> channelSet \<Rightarrow> action list" where
  "reduce this fs chsIn chsOut =
     [Go (reduce_dir this (chsIn, Dir) (chsOut, Dir)),
      Go (reduce_file this fs (chsIn, File) (chsOut, File) (chsOut, Line)),
      Go (reduce_symlink this (chsIn, Symlink) (chsOut, Symlink))]"

definition closeChannelSet :: "channelSet \<Rightarrow> action list" where
  "closeChannelSet chans =
     [CloseChan (chans, Dir), CloseChan (chans, File), CloseChan (chans, Symlink),
      CloseChan (chans, Line)]"

text \<open>
  \<^verbatim>\<open>kick\<close> starts the walker goroutine and the goroutine that runs \<^verbatim>\<open>reduce\<close>, and
  returns \<open>chsReduce\<close> to the reporter. \<open>root\<close> is what \<^verbatim>\<open>ioutil.ReadDir\<close> returns for
  \<open>fpath\<close>.
\<close>

definition kick :: "gorep \<Rightarrow> files \<Rightarrow> string \<Rightarrow> readDir \<Rightarrow> action list" where
  "kick this fs fpath root =
     [Go (Add waitMaps # mapfork this fpath chsMap root @ Wait waitMaps # closeChannelSet chsMap),
      Go (reduce this fs chsMap chsReduce)]"

subsection \<open>Specification-level notions for the scanner\<close>

text \<open>
  The lines of a content as the specification describes them: the bytes are split at
  each line-feed byte, and a final line without a trailing line-feed is a line too.
  (No line follows a trailing line-feed.)
\<close>

primrec spec_lines_from :: "byte list \<Rightarrow> byte list \<Rightarrow> byte list list" where
  "spec_lines_from cur [] = (if cur = [] then [] else [cur])"
| "spec_lines_from cur (b # bs) =
     (if b = LF then cur # spec_lines_from [] bs else spec_lines_from (cur @ [b]) bs)"

definition spec_lines :: "byte list \<Rightarrow> byte list list" where
  "spec_lines m = spec_lines_from [] m"

text \<open>
  A line is selected when it matches the search pattern and the ignore pattern is unset
  or does not match it.
\<close>

definition selected :: "gorep \<Rightarrow> string \<Rightarrow> bool" where
  "selected this strline \<longleftrightarrow>
     MatchString (pattern this) strline
     \<and> (case ignorePattern this of None \<Rightarrow> True | Some re \<Rightarrow> \<not> MatchString re strline)"

text \<open>The record of a matching line, and the marker of a binary file that matches.\<close>

definition match_record :: "string \<Rightarrow> nat \<Rightarrow> byte list \<Rightarrow> string" where
  "match_record fpath lineNumber ln =
     fpath @ '':'' @ decimal lineNumber @ '': '' @ string_of_bytes ln"

definition binary_marker :: "string \<Rightarrow> string" where
  "binary_marker fpath = ''Binary file '' @ fpath @ '' matches''"

text \<open>An operation that never blocks the goroutine that performs it.\<close>

definition nonblocking :: "action \<Rightarrow> bool" where
  "nonblocking a =
     (case a of Stderr _ \<Rightarrow> True | Open _ \<Rightarrow> True | CloseFile _ \<Rightarrow> True | Munmap \<Rightarrow> True
      | Add _ \<Rightarrow> True | Done _ \<Rightarrow> True | Go _ \<Rightarrow> True | CloseChan _ \<Rightarrow> True | Exit \<Rightarrow> True
      | _ \<Rightarrow> False)"

text \<open>
  The scanning loop told over the lines of the content: what the scanner does with the
  lines \<open>lns\<close>, the first of which has the number \<open>n + 1\<close>.
\<close>

fun scan_lines :: "gorep \<Rightarrow> string \<Rightarrow> chan \<Rightarrow> bool \<Rightarrow> nat \<Rightarrow> byte list list \<Rightarrow> action list" where
  "scan_lines this fpath out isBinary n [] = []"
| "scan_lines this fpath out isBinary n (ln # lns) =
     (if MatchString (pattern this) (string_of_bytes ln) then
        if isBinary then [Send out (binary_marker fpath)]
        else if selected this (string_of_bytes ln) then
          Send out (match_record fpath (Suc n) ln) # scan_lines this fpath out isBinary (Suc n) lns
        else scan_lines this fpath out isBinary (Suc n) lns
      else scan_lines this fpath out isBinary (Suc n) lns)"

subsection \<open>A small pattern library and configurations for the examples\<close>

text \<open>
  The examples need a concrete regular expression library. \<open>literal_Compile\<close> models
  \<^verbatim>\<open>regexp.Compile\<close> on a fragment of the library's syntax: ASCII characters that stand for
  themselves, and the flag groups \<^verbatim>\<open>(?i)\<close> and \<^verbatim>\<open>(?-i)\<close>, which switch case folding on and
  off for the rest of the expression. Under case folding a letter stands for both of its
  cases and for the other members of its Unicode folding orbit, in UTF-8: \<open>k\<close> and \<open>K\<close> also for
  the Kelvin sign U+212A, \<open>s\<close> and \<open>S\<close> also for the long s U+017F. The compiled expression
  matches a text that contains a match (\<^verbatim>\<open>MatchString\<close> is not anchored). An expression outside
  the fragment is answered with an error, so that the function is total; the model says
  nothing about what the library does with such an expression.
\<close>

primrec is_prefix :: "string \<Rightarrow> string \<Rightarrow> bool" where
  "is_prefix [] t = True"
| "is_prefix (c # cs) t = (case t of [] \<Rightarrow> False | d # ds \<Rightarrow> c = d \<and> is_prefix cs ds)"

primrec contains :: "string \<Rightarrow> string \<Rightarrow> bool" where
  "contains lit [] = (lit = [])"
| "contains lit (c # cs) = (is_prefix lit (c # cs) \<or> contains lit cs)"

















definition default_scope :: searchScope where
  "default_scope = \<lparr>scope_dir = True, scope_file = True, scope_symlink = True,
     scope_grep = False, scope_binary = False, scope_hidden = False\<rparr>"

text \<open>\<^verbatim>\<open>gorep -g -search-binary -ignore a a\<close>\<close>

definition binary_scanner :: gorep where
  "binary_scanner = \<lparr>pattern = contains ''a'', ignorePattern = Some (contains ''a''),
     scope = default_scope\<lparr>scope_grep := True, scope_binary := True\<rparr>\<rparr>"

text \<open>\<^verbatim>\<open>gorep -g -ignore skip hit\<close>\<close>

definition text_scanner :: gorep where
  "text_scanner = \<lparr>pattern = contains ''hit'', ignorePattern = Some (contains ''skip''),
     scope = default_scope\<lparr>scope_grep := True\<rparr>\<rparr>"

text \<open>\<^verbatim>\<open>gorep -grep-only hit\<close>\<close>

definition grep_only_scanner :: gorep where
  "grep_only_scanner = \<lparr>pattern = contains ''hit'', ignorePattern = None,
     scope = default_scope\<lparr>scope_dir := False, scope_file := False, scope_symlink := False,
       scope_grep := True\<rparr>\<rparr>"

text \<open>The bytes of an ASCII text.\<close>

definition bytes_of :: "string \<Rightarrow> byte list" where
  "bytes_of s = map (\<lambda>c. of_nat (of_char c)) s"

subsection \<open>The runtime: goroutines, channels, wait groups and the semaphore\<close>

text \<open>
  The state of a run: the operations each goroutine has still to perform (a finished
  goroutine has none), the counters of the two wait groups, the number of tokens in the
  buffered channel \<^verbatim>\<open>semFopenLimit\<close>, which channels are closed, the records the reporter
  has received on each channel of \<open>chsReduce\<close>, the error stream, the number of files the
  scanners hold open, and whether the process has exited or a goroutine has panicked.
\<close>

record state =
  procs :: "action list list"
  counter :: "waitGroup \<Rightarrow> int"
  tokens :: nat
  closedCh :: "chan \<Rightarrow> bool"
  received :: "chan \<Rightarrow> string list"
  stderr :: "string list"
  openFiles :: nat
  exited :: bool
  panicked :: bool

definition init :: "action list \<Rightarrow> state" where
  "init main = \<lparr>procs = [main], counter = (\<lambda>_. 0), tokens = 0, closedCh = (\<lambda>_. False),
     received = (\<lambda>_. []), stderr = [], openFiles = 0, exited = False, panicked = False\<rparr>"

text \<open>
  One operation of goroutine \<open>i\<close>, whose remaining operations are \<open>a # rest\<close>. The result
  \<open>None\<close> means that the goroutine is blocked. The channels are unbuffered: a send on a
  channel of \<open>chsMap\<close> needs a receiver (see \<open>step\<close>); a send on a channel of \<open>chsReduce\<close>
  is received by the reporter, which ranges over the four of them. A send on a closed
  channel, closing a closed channel and a negative wait-group counter are panics. The
  semaphore is a channel with a buffer of \<open>maxNumOfFileOpen\<close> tokens.
\<close>

fun exec :: "state \<Rightarrow> nat \<Rightarrow> action \<Rightarrow> action list \<Rightarrow> state option" where
  "exec s i (Send c msg) rest =
     (if closedCh s c then Some (s\<lparr>panicked := True\<rparr>)
      else if fst c = chsReduce then
        Some (s\<lparr>procs := (procs s)[i := rest],
               received := (received s)(c := received s c @ [msg])\<rparr>)
      else None)"
| "exec s i (CloseChan c) rest =
     (if closedCh s c then Some (s\<lparr>panicked := True\<rparr>)
      else Some (s\<lparr>procs := (procs s)[i := rest], closedCh := (closedCh s)(c := True)\<rparr>))"
| "exec s i (Add w) rest =
     Some (s\<lparr>procs := (procs s)[i := rest], counter := (counter s)(w := counter s w + 1)\<rparr>)"
| "exec s i (Done w) rest =
     (if counter s w - 1 < 0 then Some (s\<lparr>panicked := True\<rparr>)
      else Some (s\<lparr>procs := (procs s)[i := rest],
                  counter := (counter s)(w := counter s w - 1)\<rparr>))"
| "exec s i (Wait w) rest =
     (if counter s w = 0 then Some (s\<lparr>procs := (procs s)[i := rest]\<rparr>) else None)"
| "exec s i Acquire rest =
     (if tokens s < maxNumOfFileOpen
      then Some (s\<lparr>procs := (procs s)[i := rest], tokens := tokens s + 1\<rparr>) else None)"
| "exec s i Release rest =
     (if 0 < tokens s
      then Some (s\<lparr>procs := (procs s)[i := rest], tokens := tokens s - 1\<rparr>) else None)"
| "exec s i (Go body) rest = Some (s\<lparr>procs := (procs s)[i := rest] @ [body]\<rparr>)"
| "exec s i (ForRange c body) rest =
     (if closedCh s c then Some (s\<lparr>procs := (procs s)[i := rest]\<rparr>) else None)"
| "exec s i (Open p) rest =
     Some (s\<lparr>procs := (procs s)[i := rest], openFiles := openFiles s + 1\<rparr>)"
| "exec s i (CloseFile p) rest =
     Some (s\<lparr>procs := (procs s)[i := rest], openFiles := openFiles s - 1\<rparr>)"
| "exec s i Munmap rest = Some (s\<lparr>procs := (procs s)[i := rest]\<rparr>)"
| "exec s i (Stderr msg) rest =
     Some (s\<lparr>procs := (procs s)[i := rest], stderr := stderr s @ [msg]\<rparr>)"
| "exec s i Exit rest = Some (s\<lparr>procs := (procs s)[i := rest], exited := True\<rparr>)"

text \<open>
  What the scheduler chooses: goroutine \<open>i\<close> performs its next operation, or a sender \<open>i\<close>
  and a receiver \<open>j\<close> on the same open channel meet, and the receiver enters the body of
  its loop with the message. Nothing runs after the process has exited or panicked.
\<close>

datatype choice = Run nat | Sync nat nat

fun step :: "state \<Rightarrow> choice \<Rightarrow> state option" where
  "step s (Run i) =
     (if exited s \<or> panicked s \<or> \<not> i < length (procs s) then None
      else case procs s ! i of [] \<Rightarrow> None | a # rest \<Rightarrow> exec s i a rest)"
| "step s (Sync i j) =
     (if exited s \<or> panicked s \<or> \<not> i < length (procs s) \<or> \<not> j < length (procs s) \<or> i = j
      then None
      else case procs s ! i of
             Send c msg # rest \<Rightarrow>
               (case procs s ! j of
                  ForRange c' body # rest' \<Rightarrow>
                    if c' = c \<and> \<not> closedCh s c
                    then Some (s\<lparr>procs := (procs s)[i := rest,
                                 j := body msg @ ForRange c' body # rest']\<rparr>)
                    else None
                | _ \<Rightarrow> None)
           | _ \<Rightarrow> None)"

fun run :: "state \<Rightarrow> choice list \<Rightarrow> state option" where
  "run s [] = Some s"
| "run s (ch # chs) = (case step s ch of None \<Rightarrow> None | Some s' \<Rightarrow> run s' chs)"

inductive reachable :: "state \<Rightarrow> state \<Rightarrow> bool" for s0 :: state where
  reach_init: "reachable s0 s0"
| reach_step: "reachable s0 s \<Longrightarrow> step s ch = Some s' \<Longrightarrow> reachable s0 s'"

text \<open>A state in which no goroutine can perform an operation.\<close>

definition terminal :: "state \<Rightarrow> bool" where
  "terminal s \<longleftrightarrow> (\<forall>ch. step s ch = None)"

text \<open>
  The operation that a choice of the scheduler performs (for a meeting of a sender and a
  receiver, the send).
\<close>

fun fired :: "state \<Rightarrow> choice \<Rightarrow> action option" where
  "fired s (Run i) = (case procs s ! i of [] \<Rightarrow> None | a # rest \<Rightarrow> Some a)"
| "fired s (Sync i j) = (case procs s ! i of [] \<Rightarrow> None | a # rest \<Rightarrow> Some a)"

subsection \<open>Counting the operations a goroutine has left\<close>

text \<open>
  \<open>weight own acts\<close> adds up \<open>own a\<close> over the operations of \<open>acts\<close> and, hereditarily,
  over the operations of the goroutines that \<open>acts\<close> will start. The body of a loop is not
  counted: it has no weight of its own in the uses below.
\<close>

primrec weightA :: "(action \<Rightarrow> int) \<Rightarrow> action \<Rightarrow> int" where
  "weightA own (Send c msg) = own (Send c msg)"
| "weightA own (CloseChan c) = own (CloseChan c)"
| "weightA own (Add w) = own (Add w)"
| "weightA own (Done w) = own (Done w)"
| "weightA own (Wait w) = own (Wait w)"
| "weightA own Acquire = own Acquire"
| "weightA own Release = own Release"
| "weightA own (Go body) = sum_list (map (weightA own) body)"
| "weightA own (ForRange c body) = own (ForRange c (\<lambda>_. []))"
| "weightA own (Open p) = own (Open p)"
| "weightA own (CloseFile p) = own (CloseFile p)"
| "weightA own Munmap = own Munmap"
| "weightA own (Stderr msg) = own (Stderr msg)"
| "weightA own Exit = own Exit"

definition weight :: "(action \<Rightarrow> int) \<Rightarrow> action list \<Rightarrow> int" where
  "weight own acts = sum_list (map (weightA own) acts)"

definition total :: "(action \<Rightarrow> int) \<Rightarrow> state \<Rightarrow> int" where
  "total own s = sum_list (map (weight own) (procs s))"

text \<open>
  The part of the weight that the operation at the head of a goroutine takes away when it
  is performed: starting a goroutine moves the weight of its body to the new goroutine.
\<close>

definition top :: "(action \<Rightarrow> int) \<Rightarrow> action \<Rightarrow> int" where
  "top own a = (case a of Go body \<Rightarrow> 0 | _ \<Rightarrow> weightA own a)"

text \<open>Permits held and files open, as weights of what is left to do.\<close>

definition own_sem :: "action \<Rightarrow> int" where
  "own_sem a = (case a of Acquire \<Rightarrow> - 1 | Release \<Rightarrow> 1 | _ \<Rightarrow> 0)"

definition own_open :: "action \<Rightarrow> int" where
  "own_open a = (case a of Open _ \<Rightarrow> - 1 | CloseFile _ \<Rightarrow> 1 | _ \<Rightarrow> 0)"

subsection \<open>The goroutines of a run\<close>

text \<open>
  The bodies of the goroutines that a run of \<open>kick\<close> can start (for any path, listing and
  message), and the bodies of the three consumers at the start of an iteration.
\<close>

definition walker :: "gorep \<Rightarrow> string \<Rightarrow> readDir \<Rightarrow> action list" where
  "walker this fpath root =
     Add waitMaps # mapfork this fpath chsMap root @ Wait waitMaps # closeChannelSet chsMap"

definition dir_body :: "gorep \<Rightarrow> string \<Rightarrow> action list" where
  "dir_body this msg =
     (if scope_dir (scope this) then filter_msg this msg (chsReduce, Dir) else [])"

definition symlink_body :: "gorep \<Rightarrow> string \<Rightarrow> action list" where
  "symlink_body this msg =
     (if scope_symlink (scope this) then filter_msg this msg (chsReduce, Symlink) else [])"

definition fulls :: "gorep \<Rightarrow> files \<Rightarrow> string \<Rightarrow> readDir \<Rightarrow> action list set" where
  "fulls this fs fpath root =
     {kick this fs fpath root, walker this fpath root, reduce this fs chsMap chsReduce}
     \<union> {mapfork this p chsMap rd | p rd. True}
     \<union> {grep this p (fs p) (chsReduce, Line) | p. True}
     \<union> {body @ reduce_dir this (chsMap, Dir) (chsReduce, Dir)
          | body. body = [] \<or> (\<exists>msg. body = dir_body this msg)}
     \<union> {body @ reduce_file this fs (chsMap, File) (chsReduce, File) (chsReduce, Line)
          | body. body = [] \<or> (\<exists>msg. body
                = reduce_file_body this fs (chsReduce, File) (chsReduce, Line) msg)}
     \<union> {body @ reduce_symlink this (chsMap, Symlink) (chsReduce, Symlink)
          | body. body = [] \<or> (\<exists>msg. body = symlink_body this msg)}"

definition shapes :: "gorep \<Rightarrow> files \<Rightarrow> string \<Rightarrow> readDir \<Rightarrow> action list set" where
  "shapes this fs fpath root = {drop n full | n full. full \<in> fulls this fs fpath root}"

text \<open>A property that holds of a list of operations and of every suffix of it.\<close>

primrec sufs :: "(action list \<Rightarrow> bool) \<Rightarrow> action list \<Rightarrow> bool" where
  "sufs A [] = A []"
| "sufs A (a # acts) = (A (a # acts) \<and> sufs A acts)"

text \<open>A goroutine holds at least as many permits as it has files open.\<close>

definition permits_cover_files :: "action list \<Rightarrow> bool" where
  "permits_cover_files acts \<longleftrightarrow>
     0 \<le> weight own_open acts \<and> weight own_open acts \<le> weight own_sem acts"

subsection \<open>A small tree for the examples\<close>

text \<open>
  The directory \<open>r\<close> holds the file \<open>a.txt\<close>, the hidden directory \<open>.git\<close> and the
  directory \<open>d\<close>, which holds the file \<open>hit.c\<close>. The file \<open>r/a.txt\<close> has three lines;
  every other file cannot be opened.
\<close>

definition demo_tree :: readDir where
  "demo_tree = Listing
     [FileInfo ''a.txt'' 0 (Listing []),
      FileInfo ''.git'' ModeDir (Listing [FileInfo ''config'' 0 (Listing [])]),
      FileInfo ''d'' ModeDir (Listing [FileInfo ''hit.c'' 0 (Listing [])])]"

definition demo_files :: files where
  "demo_files p =
     (if p = ''r/a.txt'' then Mapped (bytes_of ''one\<newline>a hit\<newline>three\<newline>'')
      else OpenError ''permission denied'')"

section \<open>The binary classifier looks at bytes\<close>

lemma DecodeRune_size_cases:
  "snd (DecodeRune (p0 # p)) = 1 \<or> (snd (DecodeRune (p0 # p)) = runeSize p0 \<and> runeSize p0 \<le> length (p0 # p))"
  by (simp add: Let_def split: prod.splits) (auto simp: runeSize_def)

lemma DecodeRune_width:
  "p \<noteq> [] \<Longrightarrow> 1 \<le> snd (DecodeRune p) \<and> snd (DecodeRune p) \<le> length p"
proof (cases p)
  case Nil then show "p \<noteq> [] \<Longrightarrow> ?thesis" by simp
next
  case (Cons p0 ps)
  have "2 \<le> runeSize p0" by (simp add: runeSize_def)
  with DecodeRune_size_cases [of p0 ps] Cons show ?thesis by auto
qed

lemma mask_consts:
  "(0x1F::byte) = mask 5" "(0x0F::byte) = mask 4" "(0x07::byte) = mask 3" "(0x3F::byte) = mask 6"
  by (simp_all add: mask_eq_exp_minus_1)

lemma and_1F: "uint ((b::byte) AND 0x1F) = uint b mod 32"
  unfolding mask_consts by (simp flip: take_bit_eq_mask) (simp add: take_bit_eq_mod uint_mod_distrib)

lemma and_0F: "uint ((b::byte) AND 0x0F) = uint b mod 16"
  unfolding mask_consts by (simp flip: take_bit_eq_mask) (simp add: take_bit_eq_mod uint_mod_distrib)

lemma and_07: "uint ((b::byte) AND 0x07) = uint b mod 8"
  unfolding mask_consts by (simp flip: take_bit_eq_mask) (simp add: take_bit_eq_mod uint_mod_distrib)

lemma and_3F: "uint ((b::byte) AND 0x3F) = uint b mod 64"
  unfolding mask_consts by (simp flip: take_bit_eq_mask) (simp add: take_bit_eq_mod uint_mod_distrib)

lemma or_ge_left: "0 \<le> k \<Longrightarrow> 0 \<le> l \<Longrightarrow> c \<le> k \<Longrightarrow> c \<le> k OR (l::int)"
  using or_greater_eq [of l k] by simp

lemma or_ge_right: "0 \<le> k \<Longrightarrow> 0 \<le> l \<Longrightarrow> c \<le> l \<Longrightarrow> c \<le> k OR (l::int)"
  using or_greater_eq [of k l] by (simp add: or.commute)


lemma uint_and_nonneg: "0 \<le> push_bit n (uint (b::byte))"
  by simp

lemma decode2_ge: "0xC2 \<le> p0 \<Longrightarrow> p0 < 0xE0 \<Longrightarrow> 9 \<le> decode2 p0 b1"
proof -
  assume "0xC2 \<le> p0" "p0 < 0xE0"
  then have "2 \<le> uint p0 mod 32"
    by (simp add: word_le_def word_less_def) presburger
  then have "9 \<le> push_bit 6 (uint (p0 AND 0x1F))"
    by (simp add: and_1F push_bit_eq_mult)
  then show ?thesis
    unfolding decode2_def by (rule or_ge_left [rotated 2]) simp_all
qed

lemma decode3_ge:
  assumes "0xE0 \<le> p0" "p0 < 0xF0" "fst (acceptRange p0) \<le> b1" "b1 \<le> snd (acceptRange p0)"
  shows "9 \<le> decode3 p0 b1 b2"
proof (cases "p0 = 0xE0")
  case True
  with assms have "0xA0 \<le> b1" "b1 \<le> 0xBF"
    by (simp_all add: acceptRange_def)
  then have "32 \<le> uint b1 mod 64"
    by (simp add: word_le_def word_less_def) presburger
  then have "9 \<le> push_bit 6 (uint (b1 AND 0x3F))"
    by (simp add: and_3F push_bit_eq_mult)
  then have "9 \<le> push_bit 6 (uint (b1 AND 0x3F)) OR uint (b2 AND 0x3F)"
    by (rule or_ge_left [rotated 2]) simp_all
  then show ?thesis
    unfolding decode3_def by (rule or_ge_right [rotated 2]) simp_all
next
  case False
  with assms have "uint p0 \<noteq> 0xE0" "0xE0 \<le> uint p0" "uint p0 < 0xF0"
    by (simp_all add: word_le_def word_less_def word_uint_eq_iff)
  then have "1 \<le> uint p0 mod 16"
    by presburger
  then have "9 \<le> push_bit 12 (uint (p0 AND 0x0F))"
    by (simp add: and_0F push_bit_eq_mult)
  then show ?thesis
    unfolding decode3_def by (rule or_ge_left [rotated 2]) simp_all
qed

lemma decode4_ge:
  assumes "0xF0 \<le> p0" "p0 \<le> 0xF4" "fst (acceptRange p0) \<le> b1" "b1 \<le> snd (acceptRange p0)"
  shows "9 \<le> decode4 p0 b1 b2 b3"
proof (cases "p0 = 0xF0")
  case True
  with assms have "0x90 \<le> b1" "b1 \<le> 0xBF"
    by (simp_all add: acceptRange_def)
  then have "16 \<le> uint b1 mod 64"
    by (simp add: word_le_def word_less_def) presburger
  then have "9 \<le> push_bit 12 (uint (b1 AND 0x3F))"
    by (simp add: and_3F push_bit_eq_mult)
  then have "9 \<le> push_bit 12 (uint (b1 AND 0x3F))
      OR push_bit 6 (uint (b2 AND 0x3F)) OR uint (b3 AND 0x3F)"
    by (rule or_ge_left [rotated 2]) simp_all
  then show ?thesis
    unfolding decode4_def by (rule or_ge_right [rotated 2]) simp_all
next
  case False
  with assms have "uint p0 \<noteq> 0xF0" "0xF0 \<le> uint p0" "uint p0 \<le> 0xF4"
    by (simp_all add: word_le_def word_less_def word_uint_eq_iff)
  then have "1 \<le> uint p0 mod 8"
    by presburger
  then have "9 \<le> push_bit 18 (uint (p0 AND 0x07))"
    by (simp add: and_07 push_bit_eq_mult)
  then show ?thesis
    unfolding decode4_def by (rule or_ge_left [rotated 2]) simp_all
qed

lemma DecodeRune_multibyte:
  assumes "0x80 \<le> p0"
  shows "9 \<le> fst (DecodeRune (p0 # p))"
proof -
  have sz2: "runeSize p0 \<le> 2 \<Longrightarrow> p0 < 0xE0"
    and sz3: "\<not> runeSize p0 \<le> 2 \<Longrightarrow> runeSize p0 \<le> 3 \<Longrightarrow> 0xE0 \<le> p0 \<and> p0 < 0xF0"
    and sz4: "\<not> runeSize p0 \<le> 3 \<Longrightarrow> 0xF0 \<le> p0"
    by (auto simp: runeSize_def split: if_splits)
  show ?thesis
    using assms sz2 sz3 sz4
    by (auto simp: Let_def RuneError_def split: prod.splits
        intro!: decode2_ge decode3_ge decode4_ge simp del: One_nat_def)
qed


lemma acceptRange_lo: "0x80 \<le> fst (acceptRange p0)"
  by (simp add: acceptRange_def)

lemma DecodeRune_skipped:
  assumes "0x80 \<le> p0" "i < snd (DecodeRune (p0 # p))"
  shows "0x80 \<le> (p0 # p) ! i"
proof -
  have lo: "\<And>lo hi b. acceptRange p0 = (lo, hi) \<Longrightarrow> \<not> b < lo \<Longrightarrow> 0x80 \<le> b"
    using acceptRange_lo [of p0] by auto
  have "i = 0 \<or> i = 1 \<or> i = 2 \<or> i = 3 \<or> 4 \<le> i"
    by arith
  then show ?thesis
    using assms
    by (auto simp: Let_def split: prod.splits if_splits dest: lo)
qed

lemma indexFunc_control:
  "indexFunc s (\<lambda>r. r < 0x09) True start \<noteq> - 1
     \<longleftrightarrow> (\<exists>i. start \<le> i \<and> i < length s \<and> s ! i < 0x09)"
proof (induction s "\<lambda>r::rune. r < 0x09" True start rule: indexFunc.induct)
  case (1 s start)
  show ?case
  proof (cases "start < length s")
    case False
    then show ?thesis
      by (subst indexFunc.simps) auto
  next
    case lt: True
    define r0 where "r0 = uint (s ! start)"
    define rw where "rw = (if RuneSelf \<le> r0 then DecodeRune (drop start s) else (r0, 1))"
    show ?thesis
    proof (cases "fst rw < 0x09")
      case True
      have "\<not> RuneSelf \<le> r0"
      proof
        assume ge: "RuneSelf \<le> r0"
        then have "0x80 \<le> s ! start"
          by (simp add: RuneSelf_def r0_def word_le_def)
        moreover from lt have "drop start s = s ! start # drop (Suc start) s"
          by (simp add: Cons_nth_drop_Suc)
        ultimately have "9 \<le> fst (DecodeRune (drop start s))"
          using DecodeRune_multibyte by simp
        with ge True show False
          by (simp add: rw_def)
      qed
      with True have small: "\<not> RuneSelf \<le> uint (s ! start)" "uint (s ! start) < 0x09"
        by (simp_all add: rw_def r0_def)
      then have "s ! start < 0x09"
        by (simp add: word_less_def)
      moreover have "indexFunc s (\<lambda>r. r < 0x09) True start = int start"
        using lt small by (subst indexFunc.simps) (simp add: Let_def)
      ultimately show ?thesis
        using lt by auto
    next
      case False
      have eq: "indexFunc s (\<lambda>r. r < 0x09) True start
          = indexFunc s (\<lambda>r. r < 0x09) True (start + snd rw)"
        using lt False unfolding rw_def r0_def
        by (subst indexFunc.simps) (simp add: Let_def split: if_splits)
      have IH: "indexFunc s (\<lambda>r. r < 0x09) True (start + snd rw) \<noteq> - 1
          \<longleftrightarrow> (\<exists>i. start + snd rw \<le> i \<and> i < length s \<and> s ! i < 0x09)"
        using "1.hyps" [OF lt r0_def rw_def] False by simp
      have skipped: "\<not> s ! i < 0x09" if "start \<le> i" "i < start + snd rw" "i < length s" for i
      proof (cases "RuneSelf \<le> r0")
        case True
        then have ge: "0x80 \<le> s ! start"
          by (simp add: RuneSelf_def r0_def word_le_def)
        from lt have dr: "drop start s = s ! start # drop (Suc start) s"
          by (simp add: Cons_nth_drop_Suc)
        from True that have "i - start < snd (DecodeRune (s ! start # drop (Suc start) s))"
          by (simp add: rw_def dr)
        from DecodeRune_skipped [OF ge this] have "0x80 \<le> drop start s ! (i - start)"
          by (simp add: dr)
        with that have "0x80 \<le> s ! i"
          by simp
        then show ?thesis
          by (simp add: word_le_def word_less_def)
      next
        case nself: False
        with that have "i = start"
          by (simp add: rw_def)
        with nself False show ?thesis
          by (simp add: rw_def r0_def word_less_def)
      qed
      have w1: "1 \<le> snd rw"
        using DecodeRune_width [of "drop start s"] lt by (simp add: rw_def)
      have "(\<exists>i. start + snd rw \<le> i \<and> i < length s \<and> s ! i < 0x09)
          \<longleftrightarrow> (\<exists>i. start \<le> i \<and> i < length s \<and> s ! i < 0x09)"
      proof
        assume "\<exists>i. start + snd rw \<le> i \<and> i < length s \<and> s ! i < 0x09"
        then show "\<exists>i. start \<le> i \<and> i < length s \<and> s ! i < 0x09"
          by (meson add_leD1)
      next
        assume "\<exists>i. start \<le> i \<and> i < length s \<and> s ! i < 0x09"
        then obtain i where i: "start \<le> i" "i < length s" "s ! i < 0x09"
          by blast
        with skipped have "\<not> i < start + snd rw"
          by blast
        with i show "\<exists>i. start + snd rw \<le> i \<and> i < length s \<and> s ! i < 0x09"
          by (meson not_le)
      qed
      with eq IH show ?thesis
        by simp
    qed
  qed
qed

lemma IndexFunc_control:
  "IndexFunc s (\<lambda>r. r < 0x09) \<noteq> - 1 \<longleftrightarrow> (\<exists>b \<in> set s. b < 0x09)"
  unfolding IndexFunc_def indexFunc_control by (metis in_set_conv_nth le0)

lemma verifyBinary_prefix: "verifyBinary buf \<longleftrightarrow> (\<exists>b \<in> set (take 256 buf). b < 0x09)"
  by (simp add: verifyBinary_def IndexFunc_control)

section \<open>Paths and line splitting\<close>

lemma Base_not_empty: "Base p \<noteq> []"
  by (simp add: Base_def Let_def)

lemma Base_entry_name: "n \<noteq> [] \<Longrightarrow> CHR ''/'' \<notin> set n \<Longrightarrow> Base n = n"
proof -
  assume n: "n \<noteq> []" "CHR ''/'' \<notin> set n"
  then have all: "\<forall>c \<in> set (rev n). c \<noteq> CHR ''/''"
    by auto
  from n have "dropWhile (\<lambda>c. c = CHR ''/'') (rev n) = rev n"
    by (cases "rev n") auto
  then have "Base n = (let p2 = rev (takeWhile (\<lambda>c. c \<noteq> CHR ''/'') (rev n))
      in if p2 = [] then ''/'' else p2)"
    using n by (simp add: Base_def)
  also have "takeWhile (\<lambda>c. c \<noteq> CHR ''/'') (rev n) = rev n"
    using all by simp
  finally show ?thesis
    using n by simp
qed

lemma Base_join: "n \<noteq> [] \<Longrightarrow> CHR ''/'' \<notin> set n \<Longrightarrow> Base (d @ separator @ n) = n"
proof -
  assume n: "n \<noteq> []" "CHR ''/'' \<notin> set n"
  then have all: "\<forall>c \<in> set (rev n). c \<noteq> CHR ''/''"
    by auto
  from n have "dropWhile (\<lambda>c. c = CHR ''/'') (rev n @ CHR ''/'' # rev d)
      = rev n @ CHR ''/'' # rev d"
    by (cases "rev n") auto
  then have "Base (d @ separator @ n)
      = (let p2 = rev (takeWhile (\<lambda>c. c \<noteq> CHR ''/'') (rev n @ CHR ''/'' # rev d))
         in if p2 = [] then ''/'' else p2)"
    by (simp add: Base_def separator_def)
  also have "takeWhile (\<lambda>c. c \<noteq> CHR ''/'') (rev n @ CHR ''/'' # rev d) = rev n"
    using all takeWhile_append2 [of "rev n" "\<lambda>c. c \<noteq> CHR ''/''" "CHR ''/'' # rev d"] by auto
  finally show ?thesis
    using n by simp
qed


lemma IndexByte_ge: "- 1 \<le> IndexByte m c"
  by (induction m) (auto simp: Let_def)

lemma IndexByte_none: "IndexByte m c = - 1 \<longleftrightarrow> c \<notin> set m"
proof (induction m)
  case Nil
  show ?case by simp
next
  case (Cons b bs)
  with IndexByte_ge [of bs c] show ?case
    by (auto simp: Let_def)
qed

lemma IndexByte_less: "m \<noteq> [] \<Longrightarrow> IndexByte m c < int (length m)"
proof (induction m)
  case Nil
  then show ?case by simp
next
  case (Cons b bs)
  then show ?case
    using IndexByte_ge [of bs c] by (cases "bs = []") (auto simp: Let_def)
qed

lemma spec_lines_Nil: "spec_lines [] = []"
  by (simp add: spec_lines_def)

lemma IndexByte_nonneg: "IndexByte m c \<noteq> - 1 \<Longrightarrow> 0 \<le> IndexByte m c"
  using IndexByte_ge [of m c] by simp

lemma IndexByte_split:
  "IndexByte m c \<noteq> - 1 \<Longrightarrow>
     m = take (nat (IndexByte m c)) m @ c # drop (nat (IndexByte m c) + 1) m
     \<and> c \<notin> set (take (nat (IndexByte m c)) m)"
proof (induction m)
  case Nil
  then show ?case by simp
next
  case (Cons b bs)
  show ?case
  proof (cases "b = c")
    case True
    then show ?thesis by simp
  next
    case False
    with Cons.prems have ne: "IndexByte bs c \<noteq> - 1"
      by (auto simp: Let_def split: if_splits)
    then have "0 \<le> IndexByte bs c"
      by (rule IndexByte_nonneg)
    then have "nat (IndexByte bs c + 1) = Suc (nat (IndexByte bs c))"
      by simp
    with False ne Cons.IH show ?thesis
      by (simp add: Let_def)
  qed
qed

lemma spec_lines_from_no_LF:
  "LF \<notin> set m \<Longrightarrow> spec_lines_from cur m = (if cur @ m = [] then [] else [cur @ m])"
  by (induction m arbitrary: cur) auto

lemma spec_lines_from_LF:
  "LF \<notin> set xs \<Longrightarrow> spec_lines_from cur (xs @ LF # ys) = (cur @ xs) # spec_lines_from [] ys"
  by (induction xs arbitrary: cur) auto


lemma spec_lines_step:
  assumes "m \<noteq> []"
  shows "spec_lines m =
     (if IndexByte m LF \<noteq> - 1
      then take (nat (IndexByte m LF)) m # spec_lines (drop (nat (IndexByte m LF) + 1) m)
      else [m])"
proof (cases "IndexByte m LF = - 1")
  case True
  then have "LF \<notin> set m"
    by (simp add: IndexByte_none)
  with assms True show ?thesis
    by (simp add: spec_lines_def spec_lines_from_no_LF)
next
  case False
  from IndexByte_split [OF False]
  obtain xs ys where m: "m = xs @ LF # ys" "LF \<notin> set xs"
    and xs: "xs = take (nat (IndexByte m LF)) m"
    and ys: "ys = drop (nat (IndexByte m LF) + 1) m"
    by blast
  have "spec_lines m = xs # spec_lines ys"
    unfolding spec_lines_def by (subst m(1)) (simp add: spec_lines_from_LF m(2))
  with False xs ys show ?thesis
    by simp
qed

lemma grep_loop_lines:
  "grep_loop this fpath out isBinary n m = scan_lines this fpath out isBinary n (spec_lines m)"
proof (induction this fpath out isBinary n m rule: grep_loop.induct)
  case (1 this fpath out isBinary lineNumber m)
  show ?case
  proof (cases "m = []")
    case True
    then show ?thesis
      by (subst grep_loop.simps) (simp add: spec_lines_def)
  next
    case False
    define index where "index = IndexByte m LF"
    define ln where "ln = (if index \<noteq> - 1 then take (nat index) m else m)"
    define m' where "m' = (if index \<noteq> - 1 then drop (length ln + 1) m else drop (length ln) m)"
    have len: "index \<noteq> - 1 \<Longrightarrow> length ln = nat index"
      using IndexByte_less [OF False, of LF] by (simp add: ln_def index_def)
    have lines: "spec_lines m = ln # spec_lines m'"
    proof (cases "index = - 1")
      case True
      with False show ?thesis
        by (simp add: spec_lines_step ln_def m'_def index_def spec_lines_Nil)
    next
      case ne: False
      with len have "length ln = nat index"
        by simp
      with ne False show ?thesis
        by (simp add: spec_lines_step ln_def m'_def index_def)
    qed
    have sel: "selected this s \<longleftrightarrow> MatchString (pattern this) s
        \<and> \<not> (case ignorePattern this of None \<Rightarrow> False | Some re \<Rightarrow> MatchString re s)" for s
      by (simp add: selected_def split: option.splits)
    define ign where "ign = (case ignorePattern this of None \<Rightarrow> False
        | Some re \<Rightarrow> MatchString re (string_of_bytes ln))"
    have pos: "0 < length m"
      using False by simp
    have unfold: "grep_loop this fpath out isBinary lineNumber m =
        (if MatchString (pattern this) (string_of_bytes ln) then
           if isBinary then [Send out (binary_marker fpath)]
           else if ign then grep_loop this fpath out isBinary (lineNumber + 1) m'
           else Send out (match_record fpath (lineNumber + 1) ln)
                  # grep_loop this fpath out isBinary (lineNumber + 1) m'
         else grep_loop this fpath out isBinary (lineNumber + 1) m')"
      unfolding ln_def m'_def index_def ign_def binary_marker_def match_record_def
      by (subst grep_loop.simps) (simp only: pos if_True Let_def)
    note IH = "1.IH" [OF pos index_def ln_def m'_def refl refl]
    have sel': "selected this (string_of_bytes ln)
        \<longleftrightarrow> MatchString (pattern this) (string_of_bytes ln) \<and> \<not> ign"
      by (simp add: sel ign_def)
    show ?thesis
    proof (cases "MatchString (pattern this) (string_of_bytes ln)")
      case nomatch: False
      with IH(3) show ?thesis
        by (subst unfold) (simp add: lines)
    next
      case match: True
      show ?thesis
      proof (cases isBinary)
        case True
        with match show ?thesis
          by (subst unfold) (simp add: lines)
      next
        case nb: False
        show ?thesis
        proof (cases ign)
          case True
          with match nb IH(1) show ?thesis
            by (subst unfold) (simp add: lines sel' flip: ign_def)
        next
          case False
          with match nb IH(2) show ?thesis
            by (subst unfold) (simp add: lines sel' flip: ign_def)
        qed
      qed
    qed
  qed
qed

section \<open>What the scanner sends\<close>

lemma sends_Nil [simp]: "sends c [] = []"
  by (simp add: sends_def)

lemma sends_Cons:
  "sends c (a # acts) = (case a of Send c' msg \<Rightarrow> (if c' = c then [msg] else []) | _ \<Rightarrow> []) @ sends c acts"
  by (simp add: sends_def)

lemma sends_append [simp]: "sends c (xs @ ys) = sends c xs @ sends c ys"
  by (simp add: sends_def)

lemma sends_simps [simp]:
  "sends c (Send c' msg # acts) = (if c' = c then msg # sends c acts else sends c acts)"
  "sends c (CloseChan c' # acts) = sends c acts"
  "sends c (Add w # acts) = sends c acts"
  "sends c (Done w # acts) = sends c acts"
  "sends c (Wait w # acts) = sends c acts"
  "sends c (Acquire # acts) = sends c acts"
  "sends c (Release # acts) = sends c acts"
  "sends c (Go body # acts) = sends c acts"
  "sends c (ForRange c' f # acts) = sends c acts"
  "sends c (Open p # acts) = sends c acts"
  "sends c (CloseFile p # acts) = sends c acts"
  "sends c (Munmap # acts) = sends c acts"
  "sends c (Stderr m # acts) = sends c acts"
  "sends c (Exit # acts) = sends c acts"
  by (simp_all add: sends_Cons)

lemma scan_lines_text:
  "sends out (scan_lines this fpath out False n lns)
     = map (\<lambda>(i, ln). match_record fpath i ln)
         (filter (\<lambda>(i, ln). selected this (string_of_bytes ln)) (enumerate (Suc n) lns))"
  by (induction lns arbitrary: n) (auto simp: selected_def)

lemma scan_lines_text_ops:
  "scan_lines this fpath out False n lns
     = map (Send out) (sends out (scan_lines this fpath out False n lns))"
  by (induction lns arbitrary: n) auto

lemma scan_lines_binary:
  "scan_lines this fpath out True n lns
     = (if \<exists>ln \<in> set lns. MatchString (pattern this) (string_of_bytes ln)
        then [Send out (binary_marker fpath)] else [])"
  by (induction lns arbitrary: n) auto

lemma spec_lines_from_no_LF_in_lines:
  "LF \<notin> set cur \<Longrightarrow> ln \<in> set (spec_lines_from cur m) \<Longrightarrow> LF \<notin> set ln"
proof (induction m arbitrary: cur)
  case Nil
  then show ?case
    by (auto split: if_splits)
next
  case (Cons b bs)
  show ?case
  proof (cases "b = LF")
    case True
    with Cons.prems have "ln = cur \<or> ln \<in> set (spec_lines_from [] bs)"
      by simp
    with Cons.prems(1) Cons.IH [of "[]"] show ?thesis
      by auto
  next
    case False
    with Cons.prems have "ln \<in> set (spec_lines_from (cur @ [b]) bs)"
      by simp
    with False Cons.prems(1) Cons.IH [of "cur @ [b]"] show ?thesis
      by auto
  qed
qed

lemma spec_lines_from_concat:
  "concat (map (\<lambda>ln. ln @ [LF]) (spec_lines_from cur m))
     = (if cur @ m = [] \<or> (m \<noteq> [] \<and> last m = LF) then cur @ m else cur @ m @ [LF])"
  by (induction m arbitrary: cur) auto


lemma grep_text_sends:
  "\<not> verifyBinary mem \<Longrightarrow>
     sends out (grep this fpath (Mapped mem) out)
       = map (\<lambda>(i, ln). match_record fpath i ln)
           (filter (\<lambda>(i, ln). selected this (string_of_bytes ln)) (enumerate 1 (spec_lines mem)))"
  by (simp add: grep_def grep_loop_lines scan_lines_text)

lemma filter_enumerate_none:
  "(\<And>i. i < length xs \<Longrightarrow> \<not> P (n + i) (xs ! i)) \<Longrightarrow> filter (\<lambda>(i, x). P i x) (enumerate n xs) = []"
proof (induction xs arbitrary: n)
  case Nil
  show ?case by simp
next
  case (Cons x xs)
  from Cons.prems [of 0] have "\<not> P n x"
    by simp
  moreover have "filter (\<lambda>(i, x). P i x) (enumerate (Suc n) xs) = []"
  proof (rule Cons.IH)
    fix i assume "i < length xs"
    with Cons.prems [of "Suc i"] show "\<not> P (Suc n + i) (xs ! i)"
      by simp
  qed
  ultimately show ?case
    by simp
qed

lemma length_ge_9:
  "9 \<le> length xs \<Longrightarrow>
     \<exists>x0 x1 x2 x3 x4 x5 x6 x7 x8 rest. xs = x0 # x1 # x2 # x3 # x4 # x5 # x6 # x7 # x8 # rest"
  by (simp add: eval_nat_numeral Suc_le_length_iff) blast


section \<open>The pattern library of the examples\<close>




























section \<open>Weights and steps\<close>

lemma weight_Nil [simp]: "weight own [] = 0"
  by (simp add: weight_def)

lemma weight_Cons [simp]: "weight own (a # acts) = weightA own a + weight own acts"
  by (simp add: weight_def)

lemma weight_append [simp]: "weight own (xs @ ys) = weight own xs + weight own ys"
  by (simp add: weight_def)

lemma weightA_Go [simp]: "weightA own (Go body) = weight own body"
  by (simp add: weight_def)

declare weightA.simps(8) [simp del]

lemma sum_list_map_update:
  "i < length xs \<Longrightarrow>
     sum_list (map f (xs[i := y])) = sum_list (map f xs) - f (xs ! i) + (f y :: int)"
proof (induction xs arbitrary: i)
  case Nil
  then show ?case by simp
next
  case (Cons x xs)
  then show ?case
    by (cases i) simp_all
qed

lemma total_update:
  "i < length (procs s) \<Longrightarrow>
     total own (s\<lparr>procs := (procs s)[i := c]\<rparr>)
       = total own s - weight own (procs s ! i) + weight own c"
  by (simp add: total_def sum_list_map_update)

lemma member_le_sum_list:
  "(\<And>x. x \<in> set xs \<Longrightarrow> 0 \<le> f x) \<Longrightarrow> y \<in> set xs \<Longrightarrow> f y \<le> (sum_list (map f xs) :: int)"
proof (induction xs)
  case Nil
  then show ?case by simp
next
  case (Cons x xs)
  have "0 \<le> sum_list (map f xs)"
    using Cons.prems(1) by (intro sum_list_nonneg) auto
  moreover have "0 \<le> f x"
    using Cons.prems(1) by simp
  moreover have "y \<noteq> x \<Longrightarrow> f y \<le> sum_list (map f xs)"
    using Cons by auto
  ultimately show ?case
    by (cases "y = x") (simp, fastforce)
qed

lemma proc_le_total:
  "(\<And>c. c \<in> set (procs s) \<Longrightarrow> 0 \<le> weight own c) \<Longrightarrow> i < length (procs s) \<Longrightarrow>
     weight own (procs s ! i) \<le> total own s"
  unfolding total_def by (rule member_le_sum_list) auto

text \<open>What a step does to the list of goroutines.\<close>

lemma step_cases:
  assumes "step s ch = Some s'"
  obtains
    (panic) "s' = s\<lparr>panicked := True\<rparr>"
  | (spawn) i body rest where "ch = Run i" "i < length (procs s)" "procs s ! i = Go body # rest"
      "s' = s\<lparr>procs := (procs s)[i := rest] @ [body]\<rparr>"
  | (sync) i j c msg rest body rest' where "ch = Sync i j" "i < length (procs s)"
      "j < length (procs s)" "i \<noteq> j" "procs s ! i = Send c msg # rest"
      "procs s ! j = ForRange c body # rest'" "\<not> closedCh s c"
      "s' = s\<lparr>procs := (procs s)[i := rest, j := body msg @ ForRange c body # rest']\<rparr>"
  | (solo) i a rest where "ch = Run i" "i < length (procs s)" "procs s ! i = a # rest"
      "procs s' = (procs s)[i := rest]" "\<forall>body. a \<noteq> Go body" "exec s i a rest = Some s'"
proof (cases ch)
  case (Run i)
  with assms have i: "i < length (procs s)" and ne: "procs s ! i \<noteq> []"
    by (auto split: if_splits list.splits)
  then obtain a rest where ar: "procs s ! i = a # rest"
    by (cases "procs s ! i") auto
  with assms Run i have ex: "exec s i a rest = Some s'"
    by (auto split: if_splits)
  show ?thesis
  proof (cases a)
    case (Go body)
    with ex have "s' = s\<lparr>procs := (procs s)[i := rest] @ [body]\<rparr>"
      by auto
    with Run i ar Go show ?thesis
      by (intro spawn) auto
  qed (use ex Run i ar in \<open>auto split: if_splits intro: panic solo\<close>)
next
  case (Sync i j)
  with assms show ?thesis
    by (auto split: if_splits list.splits action.splits intro: sync)
qed


lemma total_procs_cong: "procs s' = procs s \<Longrightarrow> total own s' = total own s"
  by (simp add: total_def)

lemma total_procs: "procs s' = ps \<Longrightarrow> total own s' = sum_list (map (weight own) ps)"
  by (simp add: total_def)

lemma fired_Run: "procs s ! i = a # rest \<Longrightarrow> fired s (Run i) = Some a"
  by simp

lemma fired_Sync: "procs s ! i = a # rest \<Longrightarrow> fired s (Sync i j) = Some a"
  by simp

lemma step_total:
  assumes st: "step s ch = Some s'" and np: "\<not> panicked s'"
    and zero: "\<And>c f rest msg. ForRange c f # rest \<in> set (procs s) \<Longrightarrow> weight own (f msg) = 0"
  shows "\<exists>a. fired s ch = Some a \<and> total own s' = total own s - top own a"
  using st
proof (cases rule: step_cases)
  case panic
  with np show ?thesis by simp
next
  case (spawn i body rest)
  have "total own s' = sum_list (map (weight own) ((procs s)[i := rest])) + weight own body"
    by (simp add: total_def spawn(4))
  also have "\<dots> = total own s - weight own (Go body # rest) + weight own rest + weight own body"
    using spawn(2,3) by (simp add: sum_list_map_update total_def)
  finally show ?thesis
    using spawn by (simp add: top_def)
next
  case (sync i j c msg rest body rest')
  from sync(3,6) have "ForRange c body # rest' \<in> set (procs s)"
    by (metis nth_mem)
  then have z: "weight own (body msg) = 0"
    by (rule zero)
  have "total own s' = sum_list (map (weight own)
      ((procs s)[i := rest, j := body msg @ ForRange c body # rest']))"
    by (simp add: total_def sync(8))
  also have "\<dots> = total own s - weightA own (Send c msg)"
    using sync(2-6) z by (simp add: sum_list_map_update total_def)
  finally show ?thesis
    using sync by (simp add: top_def)
next
  case (solo i a rest)
  have "total own s' = sum_list (map (weight own) ((procs s)[i := rest]))"
    by (simp add: total_procs [OF solo(4)])
  also have "\<dots> = total own s - weightA own a"
    using solo(2,3) by (simp add: sum_list_map_update total_def)
  finally show ?thesis
    using solo by (cases a) (simp_all add: top_def)
qed

lemma step_tokens:
  assumes "step s ch = Some s'" "\<not> panicked s'" "fired s ch = Some a"
  shows "int (tokens s') = int (tokens s) - top own_sem a \<and> tokens s' \<le> max (tokens s) maxNumOfFileOpen"
  using assms(1)
proof (cases rule: step_cases)
  case (solo i a' rest)
  with assms(3) have "a' = a" by simp
  with solo show ?thesis
    by (cases a) (auto simp: top_def own_sem_def split: if_splits)
qed (use assms in \<open>auto simp: top_def own_sem_def\<close>)

section \<open>The goroutines of a run have known shapes\<close>

lemma sufs_drop: "sufs A acts \<longleftrightarrow> (\<forall>n. A (drop n acts))"
proof (induction acts)
  case Nil
  show ?case by simp
next
  case (Cons a acts)
  have "(\<forall>n. A (drop n (a # acts))) \<longleftrightarrow> A (a # acts) \<and> (\<forall>n. A (drop n acts))"
  proof
    assume h: "\<forall>n. A (drop n (a # acts))"
    have "A (drop (Suc n) (a # acts))" for n
      using h by blast
    with h [rule_format, of 0] show "A (a # acts) \<and> (\<forall>n. A (drop n acts))"
      by simp
  next
    assume h: "A (a # acts) \<and> (\<forall>n. A (drop n acts))"
    show "\<forall>n. A (drop n (a # acts))"
    proof
      fix n show "A (drop n (a # acts))"
        using h by (cases n) simp_all
    qed
  qed
  with Cons show ?case
    by simp
qed

lemma shapes_sufs:
  assumes "\<And>full. full \<in> fulls this fs fpath root \<Longrightarrow> sufs A full"
    and "c \<in> shapes this fs fpath root"
  shows "A c"
  using assms by (auto simp: shapes_def sufs_drop)

lemma shapes_full: "full \<in> fulls this fs fpath root \<Longrightarrow> full \<in> shapes this fs fpath root"
  unfolding shapes_def by (metis (mono_tags, lifting) drop0 mem_Collect_eq)

lemma shapes_tl: "a # c \<in> shapes this fs fpath root \<Longrightarrow> c \<in> shapes this fs fpath root"
proof -
  assume "a # c \<in> shapes this fs fpath root"
  then obtain n full where f: "full \<in> fulls this fs fpath root" "a # c = drop n full"
    by (auto simp: shapes_def)
  then have "c = drop (Suc n) full"
    by (metis drop_Suc tl_drop list.sel(3))
  with f(1) show ?thesis
    by (auto simp: shapes_def)
qed

lemma scan_lines_ops:
  "scan_lines this fpath out isBinary n lns
     = map (Send out) (sends out (scan_lines this fpath out isBinary n lns))"
  by (induction lns arbitrary: n) auto

lemma grep_cases:
  obtains (open_error) err where
      "grep this p access out = [Acquire, Stderr err, Release, Done waitGreps]"
  | (later_error) err where
      "grep this p access out
         = [Acquire, Open p, Stderr err, CloseFile p, Release, Done waitGreps]"
  | (mapped) msgs where
      "grep this p access out
         = Acquire # Open p # map (Send out) msgs
             @ [Munmap, CloseFile p, Release, Done waitGreps]"
proof (cases access)
  case (Mapped mem)
  show ?thesis
  proof (cases "verifyBinary mem \<and> \<not> scope_binary (scope this)")
    case True
    with Mapped have "grep this p access out
        = Acquire # Open p # map (Send out) [] @ [Munmap, CloseFile p, Release, Done waitGreps]"
      by (simp add: grep_def)
    then show ?thesis
      by (rule mapped)
  next
    case False
    define msgs where "msgs = sends out (grep_loop this p out (verifyBinary mem) 0 mem)"
    have gl: "grep_loop this p out (verifyBinary mem) 0 mem = map (Send out) msgs"
      unfolding msgs_def grep_loop_lines by (rule scan_lines_ops)
    from False Mapped have "grep this p access out
        = Acquire # Open p # grep_loop this p out (verifyBinary mem) 0 mem
            @ [Munmap, CloseFile p, Release, Done waitGreps]"
      by (auto simp: grep_def Let_def)
    then have "grep this p access out
        = Acquire # Open p # map (Send out) msgs @ [Munmap, CloseFile p, Release, Done waitGreps]"
      by (simp only: gl)
    then show ?thesis
      by (rule mapped)
  qed
qed (auto simp: grep_def intro: open_error later_error)

lemma grep_no_Go: "Go body \<notin> set (grep this p access out)"
  by (cases rule: grep_cases [of this p access out]) auto

lemma grep_no_ForRange: "ForRange c f \<notin> set (grep this p access out)"
  by (cases rule: grep_cases [of this p access out]) auto

lemma mapfork_Go:
  "Go body \<in> set (mapfork this p chans rd) \<Longrightarrow> \<exists>p' rd'. body = mapfork this p' chans rd'"
  "Go body \<in> set (mapfork_loop this p chans list) \<Longrightarrow> \<exists>p' rd'. body = mapfork this p' chans rd'"
  by (induction this p chans rd and this p chans list rule: mapfork_mapfork_loop.induct)
    (auto simp: Let_def split: if_splits)

lemma mapfork_no_ForRange:
  "ForRange c f \<notin> set (mapfork this p chans rd)"
  "ForRange c f \<notin> set (mapfork_loop this p chans list)"
  by (induction this p chans rd and this p chans list rule: mapfork_mapfork_loop.induct)
    (auto simp: Let_def split: if_splits)


lemma fulls_members:
  "kick this fs fpath root \<in> fulls this fs fpath root"
  "walker this fpath root \<in> fulls this fs fpath root"
  "reduce this fs chsMap chsReduce \<in> fulls this fs fpath root"
  "mapfork this p chsMap rd \<in> fulls this fs fpath root"
  "grep this p (fs p) (chsReduce, Line) \<in> fulls this fs fpath root"
  "reduce_dir this (chsMap, Dir) (chsReduce, Dir) \<in> fulls this fs fpath root"
  "dir_body this msg @ reduce_dir this (chsMap, Dir) (chsReduce, Dir) \<in> fulls this fs fpath root"
  "reduce_file this fs (chsMap, File) (chsReduce, File) (chsReduce, Line)
     \<in> fulls this fs fpath root"
  "reduce_file_body this fs (chsReduce, File) (chsReduce, Line) msg
     @ reduce_file this fs (chsMap, File) (chsReduce, File) (chsReduce, Line)
     \<in> fulls this fs fpath root"
  "reduce_symlink this (chsMap, Symlink) (chsReduce, Symlink) \<in> fulls this fs fpath root"
  "symlink_body this msg @ reduce_symlink this (chsMap, Symlink) (chsReduce, Symlink)
     \<in> fulls this fs fpath root"
  unfolding fulls_def by blast+

lemma fulls_cases:
  assumes "full \<in> fulls this fs fpath root"
  obtains (kickF) "full = kick this fs fpath root"
  | (walkerF) "full = walker this fpath root"
  | (reduceF) "full = reduce this fs chsMap chsReduce"
  | (mapforkF) p rd where "full = mapfork this p chsMap rd"
  | (grepF) p where "full = grep this p (fs p) (chsReduce, Line)"
  | (dirF) body where "full = body @ reduce_dir this (chsMap, Dir) (chsReduce, Dir)"
      "body = [] \<or> (\<exists>msg. body = dir_body this msg)"
  | (fileF) body where
      "full = body @ reduce_file this fs (chsMap, File) (chsReduce, File) (chsReduce, Line)"
      "body = [] \<or> (\<exists>msg. body = reduce_file_body this fs (chsReduce, File) (chsReduce, Line) msg)"
  | (symlinkF) body where "full = body @ reduce_symlink this (chsMap, Symlink) (chsReduce, Symlink)"
      "body = [] \<or> (\<exists>msg. body = symlink_body this msg)"
  using assms unfolding fulls_def by blast

lemma fulls_Go:
  assumes "full \<in> fulls this fs fpath root" "Go body \<in> set full"
  shows "body \<in> fulls this fs fpath root"
  using assms(1)
proof (cases rule: fulls_cases)
  case kickF
  with assms(2) show ?thesis
    by (auto simp: kick_def fulls_members fulls_members(2) [unfolded walker_def])
next
  case walkerF
  with assms(2) have "Go body \<in> set (mapfork this fpath chsMap root)"
    by (auto simp: walker_def closeChannelSet_def)
  then show ?thesis
    by (auto dest: mapfork_Go simp: fulls_members)
next
  case reduceF
  with assms(2) show ?thesis
    by (auto simp: reduce_def fulls_members)
next
  case (mapforkF p rd)
  with assms(2) show ?thesis
    by (auto dest: mapfork_Go simp: fulls_members)
next
  case (grepF p)
  with assms(2) show ?thesis
    by (simp add: grep_no_Go)
next
  case (dirF body)
  with assms(2) show ?thesis
    by (auto simp: reduce_dir_def dir_body_def filter_msg_def split: if_splits)
next
  case (fileF body)
  with assms(2) show ?thesis
    by (auto simp: reduce_file_def reduce_file_body_def filter_msg_def fulls_members
        split: if_splits)
next
  case (symlinkF body)
  with assms(2) show ?thesis
    by (auto simp: reduce_symlink_def symlink_body_def filter_msg_def split: if_splits)
qed

lemma drop_eq_ConsD: "drop n xs = a # ys \<Longrightarrow> a \<in> set xs"
  by (metis in_set_dropD list.set_intros(1))

lemma drop_append_head:
  assumes "drop n (body @ a # tail) = b # rest" "b \<notin> set body" "b \<notin> set tail"
  shows "b = a \<and> rest = tail"
proof -
  consider "n < length body" | "n = length body" | "length body < n"
    by linarith
  then show ?thesis
  proof cases
    case 1
    then have "drop n (body @ a # tail) = body ! n # drop (Suc n) body @ a # tail"
      by (simp add: Cons_nth_drop_Suc)
    with assms(1) have "b = body ! n"
      by simp
    with 1 assms(2) show ?thesis
      by simp
  next
    case 2
    with assms(1) show ?thesis
      by simp
  next
    case 3
    then obtain k where "n - length body = Suc k"
      by (metis Suc_diff_Suc)
    with 3 have "drop n (body @ a # tail) = drop k tail"
      by simp
    with assms(1,3) show ?thesis
      by (metis drop_eq_ConsD)
  qed
qed

lemma fulls_ForRange_cases:
  assumes "full \<in> fulls this fs fpath root" "drop n full = ForRange c f # rest"
  shows "(c = (chsMap, Dir) \<and> f = dir_body this \<and> rest = [CloseChan (chsReduce, Dir)])
       \<or> (c = (chsMap, File)
            \<and> f = reduce_file_body this fs (chsReduce, File) (chsReduce, Line)
            \<and> rest = [CloseChan (chsReduce, File), Wait waitGreps, CloseChan (chsReduce, Line)])
       \<or> (c = (chsMap, Symlink) \<and> f = symlink_body this
            \<and> rest = [CloseChan (chsReduce, Symlink)])"
  using assms(1)
proof (cases rule: fulls_cases)
  case kickF
  with drop_eq_ConsD [OF assms(2)] show ?thesis
    by (auto simp: kick_def)
next
  case walkerF
  with drop_eq_ConsD [OF assms(2)] show ?thesis
    by (auto simp: walker_def closeChannelSet_def mapfork_no_ForRange)
next
  case reduceF
  with drop_eq_ConsD [OF assms(2)] show ?thesis
    by (auto simp: reduce_def)
next
  case (mapforkF p rd)
  with drop_eq_ConsD [OF assms(2)] show ?thesis
    by (auto simp: mapfork_no_ForRange)
next
  case (grepF p)
  with drop_eq_ConsD [OF assms(2)] show ?thesis
    by (auto simp: grep_no_ForRange)
next
  case (dirF body)
  from dirF(2) have nb: "ForRange c f \<notin> set body"
    by (auto simp: dir_body_def filter_msg_def)
  from assms(2) have "drop n (body @ ForRange (chsMap, Dir) (dir_body this)
      # [CloseChan (chsReduce, Dir)]) = ForRange c f # rest"
    by (simp add: dirF(1) reduce_dir_def dir_body_def [abs_def])
  from drop_append_head [OF this nb] show ?thesis
    by simp
next
  case (fileF body)
  from fileF(2) have nb: "ForRange c f \<notin> set body"
    by (auto simp: reduce_file_body_def filter_msg_def)
  from assms(2) have "drop n (body @ ForRange (chsMap, File)
        (reduce_file_body this fs (chsReduce, File) (chsReduce, Line))
      # [CloseChan (chsReduce, File), Wait waitGreps, CloseChan (chsReduce, Line)])
      = ForRange c f # rest"
    by (simp add: fileF(1) reduce_file_def)
  from drop_append_head [OF this nb] show ?thesis
    by simp
next
  case (symlinkF body)
  from symlinkF(2) have nb: "ForRange c f \<notin> set body"
    by (auto simp: symlink_body_def filter_msg_def)
  from assms(2) have "drop n (body @ ForRange (chsMap, Symlink) (symlink_body this)
      # [CloseChan (chsReduce, Symlink)]) = ForRange c f # rest"
    by (simp add: symlinkF(1) reduce_symlink_def symlink_body_def [abs_def])
  from drop_append_head [OF this nb] show ?thesis
    by simp
qed

lemma shapes_ForRange_cases:
  assumes "ForRange c f # rest \<in> shapes this fs fpath root"
  shows "(c = (chsMap, Dir) \<and> f = dir_body this \<and> rest = [CloseChan (chsReduce, Dir)])
       \<or> (c = (chsMap, File)
            \<and> f = reduce_file_body this fs (chsReduce, File) (chsReduce, Line)
            \<and> rest = [CloseChan (chsReduce, File), Wait waitGreps, CloseChan (chsReduce, Line)])
       \<or> (c = (chsMap, Symlink) \<and> f = symlink_body this
            \<and> rest = [CloseChan (chsReduce, Symlink)])"
proof -
  from assms obtain n full where "full \<in> fulls this fs fpath root"
    "drop n full = ForRange c f # rest"
    by (auto simp: shapes_def)
  then show ?thesis
    by (rule fulls_ForRange_cases)
qed

lemma fulls_ForRange:
  assumes "full \<in> fulls this fs fpath root" "drop n full = ForRange c f # rest"
  shows "f msg @ ForRange c f # rest \<in> fulls this fs fpath root"
  using fulls_ForRange_cases [OF assms]
    fulls_members(7,9,11) [where msg = msg and this = this and fs = fs and fpath = fpath
      and root = root]
  by (auto simp: reduce_dir_def reduce_file_def reduce_symlink_def dir_body_def [abs_def]
      symlink_body_def [abs_def])

lemma shapes_Go: "Go body # c \<in> shapes this fs fpath root \<Longrightarrow> body \<in> shapes this fs fpath root"
proof -
  assume "Go body # c \<in> shapes this fs fpath root"
  then obtain n full where f: "full \<in> fulls this fs fpath root" "Go body # c = drop n full"
    by (auto simp: shapes_def)
  from f(2) have "Go body \<in> set full"
    by (metis drop_eq_ConsD)
  with f(1) have "body \<in> fulls this fs fpath root"
    by (rule fulls_Go)
  then show ?thesis
    by (rule shapes_full)
qed

lemma shapes_ForRange:
  "ForRange c f # rest \<in> shapes this fs fpath root \<Longrightarrow>
     f msg @ ForRange c f # rest \<in> shapes this fs fpath root"
proof -
  assume "ForRange c f # rest \<in> shapes this fs fpath root"
  then obtain n full where f: "full \<in> fulls this fs fpath root" "drop n full = ForRange c f # rest"
    by (auto simp: shapes_def)
  then have "f msg @ ForRange c f # rest \<in> fulls this fs fpath root"
    by (rule fulls_ForRange)
  then show ?thesis
    by (rule shapes_full)
qed

lemma reachable_shapes:
  assumes "reachable (init (kick this fs fpath root)) s"
  shows "set (procs s) \<subseteq> shapes this fs fpath root"
  using assms
proof (induction rule: reachable.induct)
  case reach_init
  show ?case
    by (simp add: init_def shapes_full fulls_members)
next
  case (reach_step s ch s')
  from reach_step.hyps(2) show ?case
  proof (cases rule: step_cases)
    case panic
    with reach_step.IH show ?thesis by simp
  next
    case (spawn i body rest)
    from spawn(2,3) reach_step.IH have "Go body # rest \<in> shapes this fs fpath root"
      by (metis nth_mem subsetD)
    then have "rest \<in> shapes this fs fpath root" "body \<in> shapes this fs fpath root"
      by (auto dest: shapes_tl shapes_Go)
    with reach_step.IH spawn(4) show ?thesis
      by (auto dest!: set_update_subset_insert [THEN subsetD])
  next
    case (sync i j c msg rest body rest')
    from sync(2,5) reach_step.IH have "Send c msg # rest \<in> shapes this fs fpath root"
      by (metis nth_mem subsetD)
    then have 1: "rest \<in> shapes this fs fpath root"
      by (rule shapes_tl)
    from sync(3,6) reach_step.IH have "ForRange c body # rest' \<in> shapes this fs fpath root"
      by (metis nth_mem subsetD)
    then have 2: "body msg @ ForRange c body # rest' \<in> shapes this fs fpath root"
      by (rule shapes_ForRange)
    from 1 2 reach_step.IH sync(8) show ?thesis
      by (auto dest!: set_update_subset_insert [THEN subsetD])
  next
    case (solo i a rest)
    from solo(2,3) reach_step.IH have "a # rest \<in> shapes this fs fpath root"
      by (metis nth_mem subsetD)
    then have "rest \<in> shapes this fs fpath root"
      by (rule shapes_tl)
    with reach_step.IH solo(4) show ?thesis
      by (auto dest!: set_update_subset_insert [THEN subsetD])
  qed
qed

section \<open>Permits and open files\<close>

lemma weight_flat: "(\<And>a. a \<in> set acts \<Longrightarrow> weightA own a = 0) \<Longrightarrow> weight own acts = 0"
  by (induction acts) simp_all

lemma weight_sends: "(\<And>msg. own (Send c msg) = 0) \<Longrightarrow> weight own (map (Send c) msgs) = 0"
  by (induction msgs) simp_all

lemma step_panicked:
  assumes "step s ch = Some s'" "panicked s'"
  shows "s' = s\<lparr>panicked := True\<rparr>"
  using assms(1)
proof (cases rule: step_cases)
  case (spawn i body rest)
  with assms show ?thesis
    by (cases ch) (auto split: if_splits)
next
  case (sync i j c msg rest body rest')
  with assms show ?thesis
    by (auto split: if_splits)
next
  case (solo i a rest)
  from assms(1) solo(1) have "\<not> panicked s"
    by (auto split: if_splits)
  with solo(6) assms(2) show ?thesis
    by (cases a) (auto split: if_splits)
qed

lemma own_sem_simps [simp]:
  "own_sem (Send c msg) = 0" "own_sem (CloseChan c) = 0" "own_sem (Add w) = 0"
  "own_sem (Done w) = 0" "own_sem (Wait w) = 0" "own_sem Acquire = - 1" "own_sem Release = 1"
  "own_sem (ForRange c f) = 0" "own_sem (Open p) = 0" "own_sem (CloseFile p) = 0"
  "own_sem Munmap = 0" "own_sem (Stderr msg) = 0" "own_sem Exit = 0"
  by (simp_all add: own_sem_def)

lemma own_open_simps [simp]:
  "own_open (Send c msg) = 0" "own_open (CloseChan c) = 0" "own_open (Add w) = 0"
  "own_open (Done w) = 0" "own_open (Wait w) = 0" "own_open Acquire = 0" "own_open Release = 0"
  "own_open (ForRange c f) = 0" "own_open (Open p) = - 1" "own_open (CloseFile p) = 1"
  "own_open Munmap = 0" "own_open (Stderr msg) = 0" "own_open Exit = 0"
  by (simp_all add: own_open_def)

lemma mapfork_flat:
  assumes "\<And>c msg. own (Send c msg) = 0" "own (Add waitMaps) = 0" "own (Done waitMaps) = 0"
    "\<And>msg. own (Stderr msg) = 0" "own Exit = 0"
  shows "\<forall>a \<in> set (mapfork this p chans rd). weightA own a = 0"
    and "\<forall>a \<in> set (mapfork_loop this p chans list). weightA own a = 0"
proof (induction this p chans rd and this p chans list rule: mapfork_mapfork_loop.induct)
  case (4 this fpath chans fname mode rd list)
  show ?case
  proof (cases "(\<not> scope_hidden (scope this) \<and> verifyHidden fname)
      \<or> (case ignorePattern this of None \<Rightarrow> False | Some re \<Rightarrow> MatchString re fname)")
    case True
    with 4 show ?thesis
      by auto
  next
    case skip: False
    show ?thesis
    proof (cases "mode AND ModeDir \<noteq> 0")
      case True
      have "weight own (mapfork this (fpath @ separator @ fname) chans rd) = 0"
        using "4.IH"(3) [OF _ _ True refl] skip by (intro weight_flat) auto
      moreover have "\<forall>a \<in> set (mapfork_loop this fpath chans list). weightA own a = 0"
        using "4.IH"(4) [OF _ _ True refl] skip by auto
      ultimately show ?thesis
        using assms skip True by (auto simp: Let_def)
    next
      case nd: False
      with 4 skip show ?thesis
        using assms by (auto simp: Let_def)
    qed
  qed
qed (use assms in auto)


lemma grep_balanced:
  "weight own_sem (grep this p access out) = 0" "weight own_open (grep this p access out) = 0"
  by (cases rule: grep_cases [of this p access out]; simp add: weight_sends)+

lemma sufs_head: "sufs A acts \<Longrightarrow> A acts"
  by (cases acts) simp_all

lemma permits_cover_files_Send:
  "permits_cover_files (Send c msg # acts) = permits_cover_files acts"
  by (simp add: permits_cover_files_def)

lemma sufs_permits_sends:
  "sufs permits_cover_files acts \<Longrightarrow> sufs permits_cover_files (map (Send c) msgs @ acts)"
  by (induction msgs) (simp_all add: permits_cover_files_Send sufs_head)

lemma sufs_permits_flat:
  "(\<And>a. a \<in> set acts \<Longrightarrow> weightA own_sem a = 0 \<and> weightA own_open a = 0) \<Longrightarrow>
     sufs permits_cover_files acts"
  by (induction acts) (simp_all add: permits_cover_files_def weight_flat)

lemma grep_permits: "sufs permits_cover_files (grep this p access out)"
proof (cases rule: grep_cases [of this p access out])
  case (mapped msgs)
  have tl: "sufs permits_cover_files
      (map (Send out) msgs @ [Munmap, CloseFile p, Release, Done waitGreps])"
    by (rule sufs_permits_sends) (simp add: permits_cover_files_def)
  with mapped sufs_head [OF tl] show ?thesis
    by (simp add: permits_cover_files_def weight_sends)
qed (simp_all add: permits_cover_files_def)

lemma fulls_flat:
  assumes "full \<in> fulls this fs fpath root" "a \<in> set full"
    "\<And>p. full \<noteq> grep this p (fs p) (chsReduce, Line)"
  shows "weightA own_sem a = 0 \<and> weightA own_open a = 0"
proof -
  note mf = mapfork_flat(1) [of own_sem, simplified, rule_format]
    mapfork_flat(1) [of own_open, simplified, rule_format]
  have wmf: "weight own_sem (mapfork this p chsMap rd) = 0"
    "weight own_open (mapfork this p chsMap rd) = 0" for p rd
    by (rule weight_flat, erule mf)+
  have wdir: "weight own_sem (reduce_dir this cin cout) = 0"
    "weight own_open (reduce_dir this cin cout) = 0" for cin cout
    by (simp_all add: reduce_dir_def)
  have wsym: "weight own_sem (reduce_symlink this cin cout) = 0"
    "weight own_open (reduce_symlink this cin cout) = 0" for cin cout
    by (simp_all add: reduce_symlink_def)
  have wfile: "weight own_sem (reduce_file this fs cin cout cl) = 0"
    "weight own_open (reduce_file this fs cin cout cl) = 0" for cin cout cl
    by (simp_all add: reduce_file_def)
  have wred: "weight own_sem (reduce this fs chsMap chsReduce) = 0"
    "weight own_open (reduce this fs chsMap chsReduce) = 0"
    by (simp_all add: reduce_def wdir wsym wfile)
  from assms(1) show ?thesis
  proof (cases rule: fulls_cases)
    case kickF
    with assms(2) show ?thesis
      by (auto simp: kick_def closeChannelSet_def wmf wred)
  next
    case walkerF
    with assms(2) show ?thesis
      by (auto simp: walker_def closeChannelSet_def mf)
  next
    case reduceF
    with assms(2) show ?thesis
      by (auto simp: reduce_def wdir wsym wfile)
  next
    case (mapforkF p rd)
    with assms(2) show ?thesis
      by (auto simp: mf)
  next
    case (grepF p)
    with assms(3) [of p] show ?thesis
      by simp
  next
    case (dirF body)
    with assms(2) show ?thesis
      by (auto simp: reduce_dir_def dir_body_def filter_msg_def split: if_splits)
  next
    case (fileF body)
    with assms(2) show ?thesis
      by (auto simp: reduce_file_def reduce_file_body_def filter_msg_def grep_balanced
          split: if_splits)
  next
    case (symlinkF body)
    with assms(2) show ?thesis
      by (auto simp: reduce_symlink_def symlink_body_def filter_msg_def split: if_splits)
  qed
qed

lemma fulls_permits:
  assumes "full \<in> fulls this fs fpath root"
  shows "sufs permits_cover_files full"
proof (cases "\<exists>p. full = grep this p (fs p) (chsReduce, Line)")
  case True
  then show ?thesis
    by (auto simp: grep_permits)
next
  case False
  then show ?thesis
    using fulls_flat [OF assms] by (intro sufs_permits_flat) blast
qed

lemma shapes_permits:
  "c \<in> shapes this fs fpath root \<Longrightarrow> permits_cover_files c"
  by (rule shapes_sufs [of this fs fpath root permits_cover_files]) (rule fulls_permits)

lemma shapes_body_balanced:
  assumes "ForRange c f # rest \<in> shapes this fs fpath root"
  shows "weight own_sem (f msg) = 0" "weight own_open (f msg) = 0"
  using shapes_ForRange_cases [OF assms]
  by (auto simp: dir_body_def symlink_body_def reduce_file_body_def filter_msg_def grep_balanced)

lemma step_openFiles:
  assumes "step s ch = Some s'" "\<not> panicked s'" "fired s ch = Some a"
    "\<And>p. a = CloseFile p \<Longrightarrow> 0 < openFiles s"
  shows "int (openFiles s') = int (openFiles s) - top own_open a"
  using assms(1)
proof (cases rule: step_cases)
  case (solo i a' rest)
  with assms(3) have "a' = a" by simp
  with solo assms(4) show ?thesis
    by (cases a) (auto simp: top_def split: if_splits)
qed (use assms in \<open>auto simp: top_def\<close>)

lemma fired_head:
  assumes "step s ch = Some s'" "fired s ch = Some a"
  shows "\<exists>i rest. i < length (procs s) \<and> procs s ! i = a # rest"
  using assms by (cases ch) (auto split: if_splits list.splits)

lemma total_mono:
  "(\<And>c. c \<in> set (procs s) \<Longrightarrow> weight own c \<le> weight own' c) \<Longrightarrow> total own s \<le> total own' s"
  unfolding total_def by (induction "procs s" arbitrary: s) (auto intro: sum_list_mono)

lemma reachable_permits:
  assumes "reachable (init (kick this fs fpath root)) s"
  shows "int (tokens s) = total own_sem s \<and> int (openFiles s) = total own_open s
       \<and> tokens s \<le> maxNumOfFileOpen"
  using assms
proof (induction rule: reachable.induct)
  case reach_init
  have ne: "kick this fs fpath root \<noteq> grep this p (fs p) (chsReduce, Line)" for p
    by (simp add: kick_def grep_def)
  have "weight own_sem (kick this fs fpath root) = 0" "weight own_open (kick this fs fpath root) = 0"
    using fulls_flat [OF fulls_members(1) _ ne] by (blast intro: weight_flat)+
  then show ?case
    by (simp add: init_def total_def)
next
  case (reach_step s ch s')
  note sh = reachable_shapes [OF reach_step.hyps(1)]
  show ?case
  proof (cases "panicked s'")
    case True
    with reach_step.hyps(2) have "s' = s\<lparr>panicked := True\<rparr>"
      by (rule step_panicked)
    with reach_step.IH show ?thesis
      by (simp add: total_def)
  next
    case False
    have zero: "weight own_sem (f msg) = 0" "weight own_open (f msg) = 0"
      if "ForRange c f # rest \<in> set (procs s)" for c f rest msg
      using that sh shapes_body_balanced by blast+
    from step_total [OF reach_step.hyps(2) False, of own_sem] zero(1)
    obtain a where a: "fired s ch = Some a" "total own_sem s' = total own_sem s - top own_sem a"
      by blast
    from step_total [OF reach_step.hyps(2) False, of own_open] zero(2) a(1)
    have o: "total own_open s' = total own_open s - top own_open a"
      by auto
    note t = step_tokens [OF reach_step.hyps(2) False a(1)]
    have pos: "0 < openFiles s" if "a = CloseFile p" for p
    proof -
      from fired_head [OF reach_step.hyps(2) a(1)] that obtain i rest
        where i: "i < length (procs s)" "procs s ! i = CloseFile p # rest"
        by blast
      have nonneg: "0 \<le> weight own_open c" if "c \<in> set (procs s)" for c
        using that sh shapes_permits by (auto simp: permits_cover_files_def)
      from i sh have "rest \<in> shapes this fs fpath root"
        by (metis nth_mem subsetD shapes_tl)
      then have "0 \<le> weight own_open rest"
        using shapes_permits by (auto simp: permits_cover_files_def)
      with i have "1 \<le> weight own_open (procs s ! i)"
        by simp
      also have "\<dots> \<le> total own_open s"
        using nonneg i(1) by (rule proc_le_total)
      finally show ?thesis
        using reach_step.IH by simp
    qed
    from step_openFiles [OF reach_step.hyps(2) False a(1) pos] o a(2) t reach_step.IH
    show ?thesis
      by simp
  qed
qed

section \<open>The claims about the sequential code\<close>

lemma all_nth_enumerate:
  "(\<forall>i < length xs. P i (xs ! i)) \<longleftrightarrow> list_all (\<lambda>(i, x). P i x) (enumerate 0 xs)"
  by (auto simp: list_all_iff in_set_enumerate_eq)

text \<open>
  Claim C3. A file classified binary: with binary search disabled the scan sends no
  record; with binary search enabled and a line that matches the search pattern, the
  scan sends the binary-match marker once and does nothing else before it releases the
  file (no further line is scanned, no further record is sent).
\<close>

theorem grep_binary_file:
  assumes "verifyBinary mem"
  shows "(\<not> scope_binary (scope this) \<longrightarrow> sends out (grep this fpath (Mapped mem) out) = [])
       \<and> (scope_binary (scope this)
            \<and> (\<exists>ln \<in> set (spec_lines mem). MatchString (pattern this) (string_of_bytes ln)) \<longrightarrow>
          grep this fpath (Mapped mem) out
            = [Acquire, Open fpath, Send out (''Binary file '' @ fpath @ '' matches''),
               Munmap, CloseFile fpath, Release, Done waitGreps])"
  using assms by (simp add: grep_def grep_loop_lines scan_lines_binary binary_marker_def)

theorem grep_binary_file_witness:
  "verifyBinary [0x00, 0x61] \<and> scope_binary (scope binary_scanner)
   \<and> sends (chsReduce, Line) (grep binary_scanner ''f'' (Mapped [0x00, 0x61]) (chsReduce, Line))
       = [''Binary file f matches'']"
proof -
  have b: "verifyBinary [0x00, 0x61]"
    by code_simp
  have s: "scope_binary (scope binary_scanner)"
    by (simp add: binary_scanner_def default_scope_def)
  have m: "\<exists>ln \<in> set (spec_lines [0x00, 0x61]).
      MatchString (pattern binary_scanner) (string_of_bytes ln)"
    by code_simp
  from grep_binary_file [OF b, of binary_scanner "(chsReduce, Line)" "''f''"] b s m
  show ?thesis
    by simp
qed

text \<open>
  Claim C4. For a content that is not binary the scanner splits the bytes into lines at
  each line-feed byte, a final line without a trailing line-feed being a line, and numbers
  the lines from 1 in file order: the records sent are those of the selected lines
  (matching the search pattern, not filtered by the ignore pattern), in order, each with
  its number and its exact text. The lines contain no line-feed and, each followed by a
  line-feed, concatenate to the content (with a line-feed added when the content does not
  end in one). Consequently, when exactly the lines 2, 5 and 9 match and the ignore pattern
  filters none of them, exactly three records are sent, for the lines 2, 5 and 9 in this
  order.
\<close>

theorem grep_text_file:
  assumes "\<not> verifyBinary mem"
  shows "sends out (grep this fpath (Mapped mem) out)
           = map (\<lambda>(i, ln). fpath @ '':'' @ decimal i @ '': '' @ string_of_bytes ln)
               (filter (\<lambda>(i, ln). selected this (string_of_bytes ln))
                  (enumerate 1 (spec_lines mem)))
       \<and> (\<forall>ln \<in> set (spec_lines mem). LF \<notin> set ln)
       \<and> concat (map (\<lambda>ln. ln @ [LF]) (spec_lines mem))
           = (if mem = [] \<or> last mem = LF then mem else mem @ [LF])
       \<and> (9 \<le> length (spec_lines mem)
            \<and> (\<forall>i < length (spec_lines mem).
                  MatchString (pattern this) (string_of_bytes (spec_lines mem ! i))
                    \<longleftrightarrow> Suc i \<in> {2, 5, 9})
            \<and> (\<forall>i < length (spec_lines mem). Suc i \<in> {2, 5, 9} \<longrightarrow>
                  selected this (string_of_bytes (spec_lines mem ! i))) \<longrightarrow>
          sends out (grep this fpath (Mapped mem) out)
            = [fpath @ '':'' @ ''2'' @ '': '' @ string_of_bytes (spec_lines mem ! 1),
               fpath @ '':'' @ ''5'' @ '': '' @ string_of_bytes (spec_lines mem ! 4),
               fpath @ '':'' @ ''9'' @ '': '' @ string_of_bytes (spec_lines mem ! 8)])"
proof (intro conjI impI)
  show general: "sends out (grep this fpath (Mapped mem) out)
      = map (\<lambda>(i, ln). fpath @ '':'' @ decimal i @ '': '' @ string_of_bytes ln)
          (filter (\<lambda>(i, ln). selected this (string_of_bytes ln)) (enumerate 1 (spec_lines mem)))"
    using grep_text_sends [OF assms] by (simp add: match_record_def [abs_def])
  show "\<forall>ln \<in> set (spec_lines mem). LF \<notin> set ln"
    using spec_lines_from_no_LF_in_lines [of "[]"] by (auto simp: spec_lines_def)
  show "concat (map (\<lambda>ln. ln @ [LF]) (spec_lines mem))
      = (if mem = [] \<or> last mem = LF then mem else mem @ [LF])"
    by (auto simp: spec_lines_def spec_lines_from_concat)
  assume h: "9 \<le> length (spec_lines mem)
      \<and> (\<forall>i < length (spec_lines mem).
            MatchString (pattern this) (string_of_bytes (spec_lines mem ! i))
              \<longleftrightarrow> Suc i \<in> {2, 5, 9})
      \<and> (\<forall>i < length (spec_lines mem). Suc i \<in> {2, 5, 9} \<longrightarrow>
            selected this (string_of_bytes (spec_lines mem ! i)))"
  define lns where "lns = spec_lines mem"
  from h have sel: "i < length lns \<Longrightarrow>
      selected this (string_of_bytes (lns ! i)) \<longleftrightarrow> i = 1 \<or> i = 4 \<or> i = 8" for i
    unfolding lns_def selected_def by (cases "Suc i \<in> {2, 5, 9}") auto
  from h obtain l0 l1 l2 l3 l4 l5 l6 l7 l8 rest
    where lns: "lns = l0 # l1 # l2 # l3 # l4 # l5 # l6 # l7 # l8 # rest"
    unfolding lns_def [symmetric] using length_ge_9 [of lns] by blast
  have first: "selected this (string_of_bytes l1)" "selected this (string_of_bytes l4)"
      "selected this (string_of_bytes l8)" "\<not> selected this (string_of_bytes l0)"
      "\<not> selected this (string_of_bytes l2)" "\<not> selected this (string_of_bytes l3)"
      "\<not> selected this (string_of_bytes l5)" "\<not> selected this (string_of_bytes l6)"
      "\<not> selected this (string_of_bytes l7)"
    using sel [of 0] sel [of 1] sel [of 2] sel [of 3] sel [of 4] sel [of 5] sel [of 6]
      sel [of 7] sel [of 8]
    by (simp_all add: lns)
  have "\<not> selected this (string_of_bytes (rest ! i))" if "i < length rest" for i
    using sel [of "9 + i"] that by (simp add: lns)
  then have tail: "filter (\<lambda>(i, ln). selected this (string_of_bytes ln)) (enumerate 10 rest) = []"
    by (intro filter_enumerate_none) simp
  have d: "decimal 2 = ''2''" "decimal 5 = ''5''" "decimal 9 = ''9''"
    by code_simp+
  have "filter (\<lambda>(i, ln). selected this (string_of_bytes ln)) (enumerate 1 lns)
      = [(2, l1), (5, l4), (9, l8)]"
    using first tail by (simp add: lns eval_nat_numeral)
  then show "sends out (grep this fpath (Mapped mem) out)
      = [fpath @ '':'' @ ''2'' @ '': '' @ string_of_bytes (spec_lines mem ! 1),
         fpath @ '':'' @ ''5'' @ '': '' @ string_of_bytes (spec_lines mem ! 4),
         fpath @ '':'' @ ''9'' @ '': '' @ string_of_bytes (spec_lines mem ! 8)]"
    unfolding general lns_def [symmetric] by (simp add: lns d)
qed

theorem grep_text_file_witness:
  "\<not> verifyBinary (bytes_of ''a\<newline>hit b\<newline>c\<newline>d\<newline>e hit\<newline>f\<newline>g\<newline>h\<newline>hit\<newline>j'')
   \<and> sends (chsReduce, Line) (grep text_scanner ''f''
        (Mapped (bytes_of ''a\<newline>hit b\<newline>c\<newline>d\<newline>e hit\<newline>f\<newline>g\<newline>h\<newline>hit\<newline>j'')) (chsReduce, Line))
       = [''f:2: hit b'', ''f:5: e hit'', ''f:9: hit'']"
proof -
  define mem where "mem = bytes_of ''a\<newline>hit b\<newline>c\<newline>d\<newline>e hit\<newline>f\<newline>g\<newline>h\<newline>hit\<newline>j''"
  have nb: "\<not> verifyBinary mem"
    unfolding mem_def by code_simp
  have len: "9 \<le> length (spec_lines mem)"
    unfolding mem_def by code_simp
  have "list_all (\<lambda>(i, ln). MatchString (pattern text_scanner) (string_of_bytes ln)
      \<longleftrightarrow> Suc i \<in> {2, 5, 9}) (enumerate 0 (spec_lines mem))"
    unfolding mem_def by code_simp
  note m = all_nth_enumerate [THEN iffD2, OF this]
  have "list_all (\<lambda>(i, ln). Suc i \<in> {2, 5, 9} \<longrightarrow> selected text_scanner (string_of_bytes ln))
      (enumerate 0 (spec_lines mem))"
    unfolding mem_def by code_simp
  note s = all_nth_enumerate [THEN iffD2, OF this]
  have t: "string_of_bytes (spec_lines mem ! 1) = ''hit b''"
    "string_of_bytes (spec_lines mem ! 4) = ''e hit''"
    "string_of_bytes (spec_lines mem ! 8) = ''hit''"
    unfolding mem_def by code_simp+
  have d: "''f'' @ '':'' @ ''2'' @ '': '' @ ''hit b'' = ''f:2: hit b''"
    "''f'' @ '':'' @ ''5'' @ '': '' @ ''e hit'' = ''f:5: e hit''"
    "''f'' @ '':'' @ ''9'' @ '': '' @ ''hit'' = ''f:9: hit''"
    by simp_all
  note c = grep_text_file [OF nb, of "(chsReduce, Line)" text_scanner "''f''",
      THEN conjunct2, THEN conjunct2, THEN conjunct2, THEN mp, OF conjI [OF len conjI [OF m s]]]
  have "sends (chsReduce, Line) (grep text_scanner ''f'' (Mapped mem) (chsReduce, Line))
      = [''f:2: hit b'', ''f:5: e hit'', ''f:9: hit'']"
    using c unfolding t d .
  with nb show ?thesis
    unfolding mem_def by (rule conjI)
qed

text \<open>
  Claim C5, as amended. A record is sent for a line of a text file only if the line
  matches the search pattern and the ignore pattern is unset or does not match the line.
  For a file classified binary the only record is the marker, sent only if binary search
  is enabled and some line matches the search pattern; the ignore pattern is not consulted
  for binary files. A file that cannot be opened, examined or mapped sends no record.
\<close>

theorem grep_emission_condition:
  assumes "msg \<in> set (sends out (grep this fpath access out))"
  shows "\<exists>mem. access = Mapped mem \<and>
     (if verifyBinary mem
      then msg = ''Binary file '' @ fpath @ '' matches'' \<and> scope_binary (scope this)
           \<and> (\<exists>ln \<in> set (spec_lines mem). MatchString (pattern this) (string_of_bytes ln))
      else \<exists>i < length (spec_lines mem).
             msg = fpath @ '':'' @ decimal (Suc i) @ '': '' @ string_of_bytes (spec_lines mem ! i)
             \<and> MatchString (pattern this) (string_of_bytes (spec_lines mem ! i))
             \<and> (case ignorePattern this of None \<Rightarrow> True
                 | Some re \<Rightarrow> \<not> MatchString re (string_of_bytes (spec_lines mem ! i))))"
proof (cases access)
  case (Mapped mem)
  show ?thesis
  proof (cases "verifyBinary mem")
    case True
    with assms Mapped show ?thesis
      by (auto simp: grep_def grep_loop_lines scan_lines_binary binary_marker_def
          split: if_splits)
  next
    case False
    with assms Mapped have "msg \<in> set (map (\<lambda>(i, ln). match_record fpath i ln)
        (filter (\<lambda>(i, ln). selected this (string_of_bytes ln)) (enumerate 1 (spec_lines mem))))"
      by (simp add: grep_text_sends)
    then obtain i ln where "(i, ln) \<in> set (enumerate 1 (spec_lines mem))"
      "selected this (string_of_bytes ln)" "msg = match_record fpath i ln"
      by auto
    then have "i - 1 < length (spec_lines mem)" "ln = spec_lines mem ! (i - 1)" "Suc (i - 1) = i"
      by (auto simp: in_set_enumerate_eq)
    with \<open>selected this (string_of_bytes ln)\<close> \<open>msg = match_record fpath i ln\<close> Mapped False
    show ?thesis
      by (auto simp: selected_def match_record_def)
  qed
qed (use assms in \<open>simp_all add: grep_def\<close>)

theorem grep_emission_condition_witness:
  "''f:5: hit'' \<in> set (sends (chsReduce, Line) (grep text_scanner ''f''
      (Mapped (bytes_of ''one\<newline>a hit\<newline>three\<newline>hit skip\<newline>hit'')) (chsReduce, Line)))
   \<and> (\<exists>mem. Mapped (bytes_of ''one\<newline>a hit\<newline>three\<newline>hit skip\<newline>hit'') = Mapped mem \<and>
     (if verifyBinary mem
      then ''f:5: hit'' = ''Binary file '' @ ''f'' @ '' matches'' \<and> scope_binary (scope text_scanner)
           \<and> (\<exists>ln \<in> set (spec_lines mem). MatchString (pattern text_scanner) (string_of_bytes ln))
      else \<exists>i < length (spec_lines mem).
             ''f:5: hit'' = ''f'' @ '':'' @ decimal (Suc i) @ '': '' @ string_of_bytes (spec_lines mem ! i)
             \<and> MatchString (pattern text_scanner) (string_of_bytes (spec_lines mem ! i))
             \<and> (case ignorePattern text_scanner of None \<Rightarrow> True
                 | Some re \<Rightarrow> \<not> MatchString re (string_of_bytes (spec_lines mem ! i)))))"
proof -
  have h: "''f:5: hit'' \<in> set (sends (chsReduce, Line) (grep text_scanner ''f''
      (Mapped (bytes_of ''one\<newline>a hit\<newline>three\<newline>hit skip\<newline>hit'')) (chsReduce, Line)))"
    by code_simp
  from h grep_emission_condition [OF h] show ?thesis
    by blast
qed

text \<open>
  Claim C5 as stated, refuted: with binary search enabled, the single line of this binary
  file matches the search pattern and the ignore pattern, so it is not selected, yet the
  marker is sent.
\<close>

theorem ignore_pattern_not_applied_to_binary:
  "sends (chsReduce, Line) (grep binary_scanner ''f'' (Mapped [0x00, 0x61]) (chsReduce, Line))
     = [''Binary file f matches'']
   \<and> spec_lines [0x00, 0x61] = [[0x00, 0x61]]
   \<and> MatchString (pattern binary_scanner) (string_of_bytes [0x00, 0x61])
   \<and> \<not> selected binary_scanner (string_of_bytes [0x00, 0x61])"
  by code_simp

text \<open>
  Claim C6. A child of a listing whose base name starts with \<open>''.''\<close> while hidden entries
  are filtered, or whose name matches the configured ignore pattern, is skipped entirely:
  the loop performs no operation for it (no send on any stream, no new expansion task), so
  the walker behaves as if the child were not in the listing.
\<close>

theorem mapfork_skips_hidden_and_ignored:
  assumes "(\<not> scope_hidden (scope this) \<and> (\<exists>cs. Base (Name child) = CHR ''.'' # cs))
         \<or> (\<exists>re. ignorePattern this = Some re \<and> MatchString re (Name child))"
  shows "mapfork_loop this fpath chans [child] = []
       \<and> mapfork_loop this fpath chans (before @ child # after)
           = mapfork_loop this fpath chans (before @ after)"
proof -
  obtain fname mode rd where child: "child = FileInfo fname mode rd"
    by (cases child)
  from assms have skip: "(\<not> scope_hidden (scope this) \<and> verifyHidden fname)
      \<or> (case ignorePattern this of None \<Rightarrow> False | Some re \<Rightarrow> MatchString re fname)"
    by (auto simp: child verifyHidden_def)
  then have one: "mapfork_loop this fpath chans (child # rest) = mapfork_loop this fpath chans rest" for rest
    by (auto simp: child)
  have app: "mapfork_loop this fpath chans (xs @ ys)
      = mapfork_loop this fpath chans xs @ mapfork_loop this fpath chans ys" for xs ys
  proof (induction xs)
    case Nil
    show ?case by simp
  next
    case (Cons x xs)
    obtain fname' mode' rd' where "x = FileInfo fname' mode' rd'"
      by (cases x)
    with Cons show ?case
      by (simp add: Let_def)
  qed
  show ?thesis
    using one [of "[]"] one [of after] app [of before "child # after"] app [of before after]
    by simp
qed

theorem mapfork_skips_hidden_and_ignored_witness:
  "\<not> scope_hidden (scope text_scanner) \<and> Base ''.git'' = ''.git''
   \<and> mapfork_loop text_scanner ''root'' chsMap
        [FileInfo ''.git'' ModeDir (Listing [FileInfo ''config'' 0 (Listing [])])] = []"
proof -
  have h: "\<not> scope_hidden (scope text_scanner)"
    by (simp add: text_scanner_def default_scope_def)
  have b: "Base ''.git'' = ''.git''"
    by code_simp
  from mapfork_skips_hidden_and_ignored [of text_scanner
      "FileInfo ''.git'' ModeDir (Listing [FileInfo ''config'' 0 (Listing [])])"
      "''root''" chsMap "[]" "[]"] h b
  show ?thesis
    by simp
qed

text \<open>
  Claim C7. The dispatch loop for file entries runs one body per entry received. The body
  sends the entry on the filtered-file stream if and only if its base name matches the
  search pattern and the file scope is enabled; independently, it starts a content-scanner
  task for the entry if and only if the grep scope is enabled.
\<close>

theorem reduce_file_dispatch:
  "reduce_file this fs (chsIn, File) (chsOut, File) (chsOut, Line)
     = [ForRange (chsIn, File) (reduce_file_body this fs (chsOut, File) (chsOut, Line)),
        CloseChan (chsOut, File), Wait waitGreps, CloseChan (chsOut, Line)]
   \<and> sends (chsOut, File) (reduce_file_body this fs (chsOut, File) (chsOut, Line) msg)
       = (if MatchString (pattern this) (Base msg) \<and> scope_file (scope this) then [msg] else [])
   \<and> spawned (reduce_file_body this fs (chsOut, File) (chsOut, Line) msg)
       = (if scope_grep (scope this) then [grep this msg (fs msg) (chsOut, Line)] else [])"
  by (simp add: reduce_file_def reduce_file_body_def filter_msg_def spawned_def)

theorem reduce_file_dispatch_witness:
  "sends (chsReduce, File) (reduce_file_body grep_only_scanner (\<lambda>_. Mapped (bytes_of ''a hit''))
      (chsReduce, File) (chsReduce, Line) ''root/hit.txt'') = []
   \<and> map (sends (chsReduce, Line))
        (spawned (reduce_file_body grep_only_scanner (\<lambda>_. Mapped (bytes_of ''a hit''))
           (chsReduce, File) (chsReduce, Line) ''root/hit.txt''))
     = [[''root/hit.txt:1: a hit'']]"
proof -
  have g: "sends (chsReduce, Line)
      (grep grep_only_scanner ''root/hit.txt'' (Mapped (bytes_of ''a hit'')) (chsReduce, Line))
      = [''root/hit.txt:1: a hit'']"
    by code_simp
  have s: "scope_grep (scope grep_only_scanner)" "\<not> scope_file (scope grep_only_scanner)"
    by (simp_all add: grep_only_scanner_def default_scope_def)
  from reduce_file_dispatch [of grep_only_scanner "\<lambda>_. Mapped (bytes_of ''a hit'')" chsMap
      chsReduce "''root/hit.txt''"] s g
  show ?thesis
    by simp
qed

text \<open>
  Claim C8. When opening, examining or mapping the file fails, the scanner task writes
  the error to the error stream, does not exit the process, sends no record, and
  completes: between taking its permit and giving it back it performs only operations
  that cannot block, and it ends by releasing the permit and signalling the wait group.
\<close>

theorem grep_access_failure:
  assumes "access = OpenError err \<or> access = StatError err \<or> access = MmapError err"
  shows "sends c (grep this fpath access out) = []
       \<and> Exit \<notin> set (grep this fpath access out)
       \<and> errors (grep this fpath access out)
           = [(case access of OpenError _ \<Rightarrow> ''grep open error: ''
               | StatError _ \<Rightarrow> ''grep stat error: '' | _ \<Rightarrow> ''grep mmap error: '')
              @ err @ [CHR 0x0A]]
       \<and> (\<exists>body. grep this fpath access out = Acquire # body @ [Release, Done waitGreps]
             \<and> list_all nonblocking body)"
  using assms by (auto simp: grep_def errors_def nonblocking_def)

theorem grep_access_failure_witness:
  "sends (chsReduce, Line)
      (grep text_scanner ''f'' (StatError ''bad file descriptor'') (chsReduce, Line)) = []
   \<and> Exit \<notin> set (grep text_scanner ''f'' (StatError ''bad file descriptor'') (chsReduce, Line))
   \<and> errors (grep text_scanner ''f'' (StatError ''bad file descriptor'') (chsReduce, Line))
       = [''grep stat error: bad file descriptor\<newline>'']"
  using grep_access_failure [of "StatError ''bad file descriptor''" "''bad file descriptor''"
      "(chsReduce, Line)" text_scanner "''f''" "(chsReduce, Line)"]
  by simp

text \<open>
  Claim C9. The binary classifier answers true if and only if one of the first 256 bytes
  of the buffer (of all its bytes when it is shorter) is below 0x09; bytes after the first
  256 have no influence on the answer.
\<close>

theorem verifyBinary_control_prefix:
  "(verifyBinary buf \<longleftrightarrow> (\<exists>b \<in> set (take 256 buf). b < 0x09))
   \<and> (\<forall>buf'. take 256 buf' = take 256 buf \<longrightarrow> verifyBinary buf' = verifyBinary buf)"
  by (simp add: verifyBinary_prefix)

theorem verifyBinary_control_prefix_witness:
  "verifyBinary [0x61, 0x08, 0x62] \<and> \<not> verifyBinary [0x61, 0x09, 0xC3, 0x00A9, 0x0A]
   \<and> verifyBinary (replicate 256 0x61 @ [0x00]) = verifyBinary (replicate 256 0x61)"
  using verifyBinary_control_prefix [of "[0x61, 0x08, 0x62]"]
    verifyBinary_control_prefix [of "[0x61, 0x09, 0xC3, 0x00A9, 0x0A]"]
    verifyBinary_control_prefix [of "replicate 256 0x61"]
  by simp




section \<open>Claims about the running pipeline\<close>

lemma run_reachable: "run s sched = Some s' \<Longrightarrow> reachable s0 s \<Longrightarrow> reachable s0 s'"
proof (induction sched arbitrary: s)
  case Nil
  then show ?case by simp
next
  case (Cons ch sched)
  then show ?case
    by (auto split: option.splits intro: reachable.reach_step)
qed

lemma grep_permit_bracket:
  "\<exists>mid. grep this p access out = Acquire # mid @ [Release, Done waitGreps]
     \<and> Exit \<notin> set mid \<and> Acquire \<notin> set mid \<and> Release \<notin> set mid"
proof (cases rule: grep_cases [of this p access out])
  case (open_error err)
  then have "grep this p access out = Acquire # [Stderr err] @ [Release, Done waitGreps]"
    by simp
  then show ?thesis
    by (intro exI [of _ "[Stderr err]"]) simp
next
  case (later_error err)
  then have "grep this p access out
      = Acquire # [Open p, Stderr err, CloseFile p] @ [Release, Done waitGreps]"
    by simp
  then show ?thesis
    by (intro exI [of _ "[Open p, Stderr err, CloseFile p]"]) simp
next
  case (mapped msgs)
  then have "grep this p access out
      = Acquire # (Open p # map (Send out) msgs @ [Munmap, CloseFile p]) @ [Release, Done waitGreps]"
    by simp
  then show ?thesis
    by (intro exI [of _ "Open p # map (Send out) msgs @ [Munmap, CloseFile p]"])
       auto
qed

text \<open>
  Claim C2. In every state that a run of the pipeline can reach, for any scheduling and any
  number of scanners started, the files open for scanning are at most as many as the
  permits taken from the pool, and these are at most 10. Every scanner takes its permit
  first, before it opens its file, and gives it back as its last operation but one on
  every path (success, open, stat or mmap error, skipped binary file, binary match); it
  never exits the process while it holds the permit.
\<close>

theorem open_files_bounded:
  assumes "reachable (init (kick this fs fpath root)) s"
  shows "openFiles s \<le> tokens s \<and> tokens s \<le> maxNumOfFileOpen \<and> maxNumOfFileOpen = 10
       \<and> (\<forall>p access out. \<exists>mid.
             grep this p access out = Acquire # mid @ [Release, Done waitGreps]
             \<and> Exit \<notin> set mid \<and> Acquire \<notin> set mid \<and> Release \<notin> set mid)"
proof -
  note p = reachable_permits [OF assms]
  have "total own_open s \<le> total own_sem s"
  proof (rule total_mono)
    fix c assume "c \<in> set (procs s)"
    with reachable_shapes [OF assms] have "c \<in> shapes this fs fpath root"
      by blast
    then show "weight own_open c \<le> weight own_sem c"
      using shapes_permits by (auto simp: permits_cover_files_def)
  qed
  with p have "openFiles s \<le> tokens s"
    by simp
  moreover have "\<exists>mid. grep this p access out = Acquire # mid @ [Release, Done waitGreps]
             \<and> Exit \<notin> set mid \<and> Acquire \<notin> set mid \<and> Release \<notin> set mid" for p access out
    using grep_permit_bracket [of this p access out] by blast
  ultimately show ?thesis
    using p by (simp add: maxNumOfFileOpen_def)
qed

theorem open_files_bounded_witness:
  "\<exists>s. run (init (kick text_scanner demo_files ''r'' demo_tree))
          [Run 0, Run 0, Run 2, Run 2, Run 2, Run 1, Sync 1 4, Run 4, Run 4, Run 6, Run 6] = Some s
       \<and> openFiles s = 1 \<and> openFiles s \<le> tokens s \<and> tokens s \<le> 10"
proof -
  define sched where
    "sched = [Run 0, Run 0, Run 2, Run 2, Run 2, Run 1, Sync 1 4, Run 4, Run 4, Run 6, Run 6]"
  have "map_option openFiles (run (init (kick text_scanner demo_files ''r'' demo_tree)) sched)
      = Some 1"
    unfolding sched_def by code_simp
  then obtain s where s: "run (init (kick text_scanner demo_files ''r'' demo_tree)) sched = Some s"
    and o: "openFiles s = 1"
    by auto
  have "reachable (init (kick text_scanner demo_files ''r'' demo_tree)) s"
    by (rule run_reachable [OF s]) (rule reachable.reach_init)
  from open_files_bounded [OF this] s o show ?thesis
    unfolding sched_def by auto
qed

end
